theory Spec2Isabelle
  imports
    Complex_Main
    "HOL-Library.AList"
    "HOL-Library.Char_ord"
    "HOL-Library.List_Lexorder"
    "HOL-Library.Multiset"
begin

section \<open>Configuration\<close>

text \<open>
  The module-level settings of \<^verbatim>\<open>fetch_rates.py\<close> that the modelled functions read.
  Integers are Python's unbounded \<open>int\<close>; \<open>RETRY_BASE_SECONDS\<close> is a float that is only
  ever multiplied by a power of two, which is taken over the reals.
\<close>

record config =
  BASE_CURRENCY :: string
  START_YEAR :: int
  MAX_PER_MINUTE :: int
  SAFETY_BUFFER :: int
  ALLOW_PARTIAL_MONTH :: bool
  MAX_RETRIES :: int
  RETRY_BASE_SECONDS :: real
  CURRENCIES :: "string list"

section \<open>Quota budgeting (\<^verbatim>\<open>main\<close>, lines 311 to 341)\<close>

text \<open>
  Dates are ISO strings and are compared as Python compares \<open>str\<close>: lexicographically.
  Each early \<^verbatim>\<open>return\<close> of the budgeting block is one constructor; \<open>Fetch\<close> is the
  fall-through to the lock with the dates still planned.
\<close>

datatype decision =
    NoQuotaInfo
  | BelowBuffer
  | NoneAvailable
  | NotEnough
  | Fetch "string list"

definition budget :: "config \<Rightarrow> int option \<Rightarrow> string list \<Rightarrow> decision" where
  "budget cfg remaining missing =
     (let missing_dates = sort missing;
          ndays = int (length missing_dates);
          need = ndays
      in case remaining of
           None \<Rightarrow> NoQuotaInfo
         | Some r \<Rightarrow>
             if r < SAFETY_BUFFER cfg then BelowBuffer
             else let available = r - SAFETY_BUFFER cfg in
               if available \<le> 0 then NoneAvailable
               else if available < need then
                 (if \<not> ALLOW_PARTIAL_MONTH cfg then NotEnough
                  else Fetch (take (nat available) missing_dates))
               else Fetch missing_dates)"

text \<open>The value \<^verbatim>\<open>main\<close> returns at an early exit of the budgeting block.\<close>

fun decision_exit :: "decision \<Rightarrow> int option" where
  "decision_exit NoQuotaInfo = Some 1"
| "decision_exit BelowBuffer = Some 0"
| "decision_exit NoneAvailable = Some 0"
| "decision_exit NotEnough = Some 0"
| "decision_exit (Fetch ds) = None"

definition is_skip :: "decision \<Rightarrow> bool" where
  "is_skip d \<longleftrightarrow> decision_exit d = Some 0"

section \<open>The environment and the state of a run\<close>

text \<open>
  Exceptions are values. Only their being raised matters to the callers (which catch
  \<^verbatim>\<open>Exception\<close>), so one constructor stands for each Python class that occurs; the
  two \<^verbatim>\<open>RuntimeError\<close>s of \<^verbatim>\<open>get_historical_for_date\<close> are told apart as their messages
  are. \<open>JSONError\<close> is whatever \<^verbatim>\<open>resp.json()\<close> or an accessor raises on an unusable body.
\<close>

datatype exn =
    RequestException
  | ValueError
  | RuntimeError429
  | RuntimeErrorHTTP int
  | JSONError
  | OSError
  | KeyError
  | LockTimeout

text \<open>
  A Python float. The program never computes with a rate: it parses, stores and prints
  it, so only the identity of the value matters.
\<close>

datatype pyfloat = Finite real | PosInf | NegInf | NaN

text \<open>
  What \<^verbatim>\<open>resp.json()\<close> gives, cut down to the keys the program reads.
  \<open>Unusable\<close> is a body that is not JSON, or whose parts have a shape on which the
  accessors raise. A value of the day's object is null, something \<^verbatim>\<open>float()\<close>
  converts, or something on which \<^verbatim>\<open>float()\<close> raises.
\<close>

datatype api_val = JNull | JNumber pyfloat | JUnconvertible

datatype body =
    Unusable
  | Json (month_total: "int option") (month_used: "int option") (month_remaining: "int option")
         (data_days: "(string \<times> (string \<times> api_val) list) list")

record response =
  status_code :: int
  body :: body

datatype outcome = Raises | Responds response

datatype request = StatusReq | HistoricalReq string

datatype sleep_kind = RateLimit | Backoff

text \<open>The files of \<open>DATA_DIR\<close>: \<^verbatim>\<open>YYYY-MM.csv\<close> and its \<^verbatim>\<open>with_suffix(".tmp")\<close> sibling.\<close>

datatype suffix = DotCsv | DotTmp

datatype path = Path int int suffix

text \<open>
  A file as \<^verbatim>\<open>csv.reader\<close> delivers it: the records, each a list of fields, and whether
  reading raises after the last of them (an undecodable byte, a field over the limit).
\<close>

record csv_file =
  records :: "string list list"
  broken :: bool

type_synonym fs = "path \<Rightarrow> csv_file option"

datatype write_fault = NoFault | OpenFails | WriteFails nat | ReplaceFails

text \<open>
  Everything outside the program, as parameters: what the \<open>k\<close>-th interaction with the
  outside yields (\<open>reply\<close>) and how much extra time passes during it (\<open>delay\<close>), the
  current year and month, whether the lock is obtained before its timeout, what other
  processes do to the files between the scan and the lock, which operation of a write
  fails, and Python's \<^verbatim>\<open>float(str)\<close> and \<^verbatim>\<open>repr(float)\<close>.
\<close>

record env =
  reply :: "nat \<Rightarrow> outcome"
  delay :: "nat \<Rightarrow> real"
  today :: "int \<times> int"
  lock_free :: bool
  others :: "fs \<Rightarrow> fs"
  fault :: write_fault
  unlink_fails :: bool
  float_of_str :: "string \<Rightarrow> pyfloat option"
  repr_float :: "pyfloat \<Rightarrow> string"

text \<open>
  The state a run threads: the clock, the number of interactions so far, the module's
  \<^verbatim>\<open>_request_timestamps\<close>, the files, and three logs that the program does not keep
  but the properties speak about (requests sent with what came back, sleeps, and every
  timestamp ever recorded).
\<close>

record world =
  clock :: real
  step :: nat
  stamps :: "real list"
  files :: fs
  sent :: "(request \<times> outcome) list"
  slept :: "(sleep_kind \<times> real) list"
  recorded :: "real list"

definition tick :: "env \<Rightarrow> world \<Rightarrow> world" where
  "tick e w = w\<lparr>clock := clock w + delay e (step w), step := Suc (step w)\<rparr>"

definition time_time :: "env \<Rightarrow> world \<Rightarrow> real \<times> world" where
  "time_time e w = (let w' = tick e w in (clock w', w'))"

text \<open>\<^verbatim>\<open>time.sleep\<close> raises \<^verbatim>\<open>ValueError\<close> on a negative length.\<close>

definition time_sleep :: "env \<Rightarrow> sleep_kind \<Rightarrow> real \<Rightarrow> world \<Rightarrow> exn + world" where
  "time_sleep e k d w =
     (if d < 0 then Inl ValueError
      else let w' = tick e w
           in Inr (w'\<lparr>clock := clock w' + d, slept := slept w' @ [(k, d)]\<rparr>))"

definition requests_get :: "env \<Rightarrow> request \<Rightarrow> world \<Rightarrow> outcome \<times> world" where
  "requests_get e rq w =
     (let out = reply e (step w); w' = tick e w
      in (out, w'\<lparr>sent := sent w' @ [(rq, out)]\<rparr>))"

section \<open>Rate limiter (\<^verbatim>\<open>wait_for_rate_slot\<close>, \<^verbatim>\<open>record_request_timestamp\<close>)\<close>

definition in_window :: "real \<Rightarrow> real \<Rightarrow> bool" where
  "in_window now t \<longleftrightarrow> now - t < 60"

definition wait_for_rate_slot :: "config \<Rightarrow> env \<Rightarrow> world \<Rightarrow> exn option \<times> world" where
  "wait_for_rate_slot cfg e w0 =
     (let (now, w1) = time_time e w0;
          ts = filter (in_window now) (stamps w1);
          w2 = w1\<lparr>stamps := ts\<rparr>
      in if int (length ts) < MAX_PER_MINUTE cfg then (None, w2)
         else if ts = [] then (Some ValueError, w2)
         else
           let oldest = Min (set ts);
               wait_seconds = 60 - (now - oldest) + 1 / 20
           in case time_sleep e RateLimit wait_seconds w2 of
                Inl x \<Rightarrow> (Some x, w2)
              | Inr w3 \<Rightarrow>
                  let (now', w4) = time_time e w3
                  in (None, w4\<lparr>stamps := filter (in_window now') (stamps w4)\<rparr>))"

definition record_request_timestamp :: "env \<Rightarrow> world \<Rightarrow> world" where
  "record_request_timestamp e w =
     (let (t, w') = time_time e w
      in w'\<lparr>stamps := stamps w' @ [t], recorded := recorded w' @ [t]\<rparr>)"

section \<open>Request with retries (\<^verbatim>\<open>do_request\<close>)\<close>

definition backoff :: "config \<Rightarrow> nat \<Rightarrow> real" where
  "backoff cfg attempt = RETRY_BASE_SECONDS cfg * 2 ^ (attempt - 1)"

text \<open>
  One pass of the \<^verbatim>\<open>while True\<close> loop per call; \<open>attempt0\<close> is the value of
  \<^verbatim>\<open>attempt\<close> on entry to the pass. The loop goes round again only while
  \<^verbatim>\<open>attempt <= MAX_RETRIES\<close>, which bounds it.
\<close>

function do_request_loop ::
  "config \<Rightarrow> env \<Rightarrow> request \<Rightarrow> bool \<Rightarrow> nat \<Rightarrow> world \<Rightarrow> (exn + response) \<times> world" where
  "do_request_loop cfg e rq count_against_rate attempt0 w0 =
     (let attempt = attempt0 + 1;
          (stop, w1) = (if count_against_rate then wait_for_rate_slot cfg e w0 else (None, w0))
      in case stop of
           Some x \<Rightarrow> (Inl x, w1)
         | None \<Rightarrow>
             (case requests_get e rq w1 of
                (Raises, w2) \<Rightarrow>
                  if int attempt \<le> MAX_RETRIES cfg then
                    (case time_sleep e Backoff (backoff cfg attempt) w2 of
                       Inl x \<Rightarrow> (Inl x, w2)
                     | Inr w3 \<Rightarrow> do_request_loop cfg e rq count_against_rate attempt w3)
                  else (Inl RequestException, w2)
              | (Responds resp, w2) \<Rightarrow>
                  let w3 = (if count_against_rate then record_request_timestamp e w2 else w2)
                  in if status_code resp \<ge> 500 \<and> int attempt \<le> MAX_RETRIES cfg then
                       (case time_sleep e Backoff (backoff cfg attempt) w3 of
                          Inl x \<Rightarrow> (Inl x, w3)
                        | Inr w4 \<Rightarrow> do_request_loop cfg e rq count_against_rate attempt w4)
                     else (Inr resp, w3)))"
  by pat_completeness auto
termination
  by (relation "measure (\<lambda>(cfg, e, rq, c, attempt0, w). nat (MAX_RETRIES cfg - int attempt0))") auto

definition do_request :: "config \<Rightarrow> env \<Rightarrow> request \<Rightarrow> bool \<Rightarrow> world \<Rightarrow> (exn + response) \<times> world" where
  "do_request cfg e rq count_against_rate w = do_request_loop cfg e rq count_against_rate 0 w"

declare do_request_loop.simps [simp del]





definition backoffs :: "world \<Rightarrow> real list" where
  "backoffs w = map snd (filter (\<lambda>(k, d). k = Backoff) (slept w))"


section \<open>API helpers (\<^verbatim>\<open>get_status\<close>, \<^verbatim>\<open>get_historical_for_date\<close>)\<close>

record quota =
  total :: "int option"
  used :: "int option"
  remaining :: "int option"

text \<open>
  \<^verbatim>\<open>get_status\<close> catches what \<^verbatim>\<open>do_request\<close> raises and returns \<^verbatim>\<open>None\<close>; what
  \<^verbatim>\<open>r.json()\<close> raises is outside the \<^verbatim>\<open>try\<close> and escapes.
\<close>

definition get_status :: "config \<Rightarrow> env \<Rightarrow> world \<Rightarrow> (exn + quota option) \<times> world" where
  "get_status cfg e w =
     (case do_request cfg e StatusReq False w of
        (Inl x, w') \<Rightarrow> (Inr None, w')
      | (Inr r, w') \<Rightarrow>
          if status_code r \<noteq> 200 then (Inr None, w')
          else (case body r of
                  Unusable \<Rightarrow> (Inl JSONError, w')
                | Json t u rem days \<Rightarrow>
                    (Inr (Some \<lparr>total = t, used = u, remaining = rem\<rparr>), w')))"

text \<open>
  A cell of a row dictionary: a Python \<open>str\<close> (the blank is the empty string) or a float.
  A row is the dictionary itself, keys in insertion order; \<^verbatim>\<open>row[c] = v\<close> is
  \<open>AList.update\<close>.
\<close>

datatype cell = Str string | Num pyfloat

type_synonym row = "(string \<times> cell) list"

text \<open>The loop \<^verbatim>\<open>for c in CURRENCIES\<close> of \<^verbatim>\<open>get_historical_for_date\<close>.\<close>

fun fill_row :: "(string \<times> api_val) list \<Rightarrow> string list \<Rightarrow> row \<Rightarrow> exn + row" where
  "fill_row day [] row = Inr row"
| "fill_row day (c # cs) row =
     (case map_of day c of
        None \<Rightarrow> fill_row day cs (AList.update c (Str '''') row)
      | Some JNull \<Rightarrow> fill_row day cs (AList.update c (Str '''') row)
      | Some (JNumber f) \<Rightarrow> fill_row day cs (AList.update c (Num f) row)
      | Some JUnconvertible \<Rightarrow> Inl ValueError)"

definition get_historical_for_date ::
  "config \<Rightarrow> env \<Rightarrow> string \<Rightarrow> world \<Rightarrow> (exn + row) \<times> world" where
  "get_historical_for_date cfg e date_iso w =
     (case do_request cfg e (HistoricalReq date_iso) True w of
        (Inl x, w') \<Rightarrow> (Inl x, w')
      | (Inr resp, w') \<Rightarrow>
          if status_code resp = 429 then (Inl RuntimeError429, w')
          else if status_code resp \<noteq> 200 then (Inl (RuntimeErrorHTTP (status_code resp)), w')
          else (case body resp of
                  Unusable \<Rightarrow> (Inl JSONError, w')
                | Json t u rem days \<Rightarrow>
                    let day0 = (case map_of days date_iso of None \<Rightarrow> [] | Some d \<Rightarrow> d);
                        day = AList.update (BASE_CURRENCY cfg) (JNumber (Finite 1)) day0;
                        row = [(''date'', Str date_iso)]
                    in (fill_row day (CURRENCIES cfg) row, w')))"

section \<open>CSV helpers (\<^verbatim>\<open>csv_path_for\<close>, \<^verbatim>\<open>read_csv_rows\<close>, \<^verbatim>\<open>write_csv_rows\<close>)\<close>

definition csv_path_for :: "int \<Rightarrow> int \<Rightarrow> path" where
  "csv_path_for year month = Path year month DotCsv"

fun with_suffix_tmp :: "path \<Rightarrow> path" where
  "with_suffix_tmp (Path y m s) = Path y m DotTmp"

text \<open>
  \<^verbatim>\<open>csv.DictReader\<close>: the first record is the field names. A later record becomes the
  dictionary \<^verbatim>\<open>dict(zip(fieldnames, record))\<close>, and the field names beyond a short record
  get \<^verbatim>\<open>None\<close>; the surplus of a long record goes under the key \<^verbatim>\<open>None\<close>, which no
  string key reads. Empty records are passed over.
\<close>

definition dict_row :: "string list \<Rightarrow> string list \<Rightarrow> (string \<times> string option) list" where
  "dict_row fieldnames record =
     fold (\<lambda>(k, v) d. AList.update k v d)
       (zip fieldnames (map Some record @ replicate (length fieldnames - length record) None))
       []"

definition dict_reader :: "string list list \<Rightarrow> (string \<times> string option) list list" where
  "dict_reader recs =
     (case recs of
        [] \<Rightarrow> []
      | fieldnames # rest \<Rightarrow> map (dict_row fieldnames) (filter (\<lambda>r. r \<noteq> []) rest))"

text \<open>The value stored for currency \<open>c\<close> of a dictionary \<open>r\<close> of the reader.\<close>

definition normalize_cell :: "env \<Rightarrow> (string \<times> string option) list \<Rightarrow> string \<Rightarrow> cell" where
  "normalize_cell e r c =
     (case map_of r c of
        None \<Rightarrow> Str ''''
      | Some None \<Rightarrow> Str ''''
      | Some (Some val) \<Rightarrow>
          if val = '''' then Str ''''
          else (case float_of_str e val of Some f \<Rightarrow> Num f | None \<Rightarrow> Str val))"

definition normalize_row :: "config \<Rightarrow> env \<Rightarrow> (string \<times> string option) list \<Rightarrow> string \<Rightarrow> row" where
  "normalize_row cfg e r d =
     fold (\<lambda>c normalized. AList.update c (normalize_cell e r c) normalized)
       (CURRENCIES cfg) [(''date'', Str d)]"

text \<open>The loop \<^verbatim>\<open>for r in reader\<close>, on the dictionaries left to read.\<close>

fun read_loop ::
  "config \<Rightarrow> env \<Rightarrow> (string \<times> string option) list list \<Rightarrow> (string \<times> row) list
     \<Rightarrow> (string \<times> row) list" where
  "read_loop cfg e [] result = result"
| "read_loop cfg e (r # rs) result =
     (case map_of r ''date'' of
        None \<Rightarrow> read_loop cfg e rs result
      | Some None \<Rightarrow> read_loop cfg e rs result
      | Some (Some d) \<Rightarrow>
          if d = '''' then read_loop cfg e rs result
          else read_loop cfg e rs (AList.update d (normalize_row cfg e r d) result))"

text \<open>
  An exception while reading is caught and logged, and what was read until then is
  returned: \<open>read_csv_warns\<close> says whether that warning is logged.
\<close>

definition read_csv_rows :: "config \<Rightarrow> env \<Rightarrow> fs \<Rightarrow> path \<Rightarrow> (string \<times> row) list" where
  "read_csv_rows cfg e s p =
     (case s p of
        None \<Rightarrow> []
      | Some f \<Rightarrow> read_loop cfg e (dict_reader (records f)) [])"

definition read_csv_warns :: "fs \<Rightarrow> path \<Rightarrow> bool" where
  "read_csv_warns s p = (case s p of None \<Rightarrow> False | Some f \<Rightarrow> broken f)"

text \<open>A dictionary of the reader has the date \<open>d\<close>: \<^verbatim>\<open>r.get("date")\<close> is \<open>d\<close>.\<close>

definition has_date :: "string \<Rightarrow> (string \<times> string option) list \<Rightarrow> bool" where
  "has_date d r \<longleftrightarrow> map_of r ''date'' = Some (Some d)"

text \<open>What \<^verbatim>\<open>get_historical_for_date\<close> stores for a value \<^verbatim>\<open>day.get(c)\<close> it can convert.\<close>

definition cell_of :: "api_val option \<Rightarrow> cell" where
  "cell_of v = (case v of Some (JNumber f) \<Rightarrow> Num f | _ \<Rightarrow> Str '''')"

text \<open>\<^verbatim>\<open>r.get(c, "")\<close> with \<^verbatim>\<open>None\<close> read as the blank, as the test on it does.\<close>

definition field :: "(string \<times> string option) list \<Rightarrow> string \<Rightarrow> string" where
  "field r c = (case map_of r c of Some (Some v) \<Rightarrow> v | _ \<Rightarrow> '''')"

section \<open>Writing the archive (\<^verbatim>\<open>write_csv_rows\<close>)\<close>

text \<open>
  \<^verbatim>\<open>csv.DictWriter\<close>: a float is written as its \<^verbatim>\<open>repr\<close>, a string as it is, a missing
  key as the blank; a key outside the field names raises \<^verbatim>\<open>ValueError\<close>.
\<close>

definition format_cell :: "env \<Rightarrow> cell \<Rightarrow> string" where
  "format_cell e c = (case c of Str s \<Rightarrow> s | Num f \<Rightarrow> repr_float e f)"

definition dict_to_list :: "env \<Rightarrow> string list \<Rightarrow> row \<Rightarrow> exn + string list" where
  "dict_to_list e fieldnames rowdict =
     (if \<exists>k \<in> set (map fst rowdict). k \<notin> set fieldnames then Inl ValueError
      else Inr (map (\<lambda>k. case map_of rowdict k of None \<Rightarrow> '''' | Some c \<Rightarrow> format_cell e c)
                  fieldnames))"

text \<open>The operations on files the function uses; \<^verbatim>\<open>Path.replace\<close> is one atomic step.\<close>

definition fs_create :: "path \<Rightarrow> fs \<Rightarrow> fs" where
  "fs_create p s = s(p \<mapsto> \<lparr>records = [], broken = False\<rparr>)"

definition fs_append :: "path \<Rightarrow> string list \<Rightarrow> fs \<Rightarrow> fs" where
  "fs_append p line s =
     (case s p of None \<Rightarrow> s | Some f \<Rightarrow> s(p \<mapsto> f\<lparr>records := records f @ [line]\<rparr>))"

definition fs_replace :: "path \<Rightarrow> path \<Rightarrow> fs \<Rightarrow> fs" where
  "fs_replace src dst s = (s(dst := s src))(src := None)"

definition fs_unlink :: "path \<Rightarrow> fs \<Rightarrow> fs" where
  "fs_unlink p s = s(p := None)"

text \<open>
  Writing the lines one by one into the temporary file. The result is the exception that
  ended the writing, if any, and the states of the files after each line written. Line
  \<open>i\<close> (the header is line 0) fails on a row with a foreign key, or when the outside makes
  the \<open>i\<close>-th write fail.
\<close>

fun write_lines ::
  "write_fault \<Rightarrow> path \<Rightarrow> nat \<Rightarrow> (exn + string list) list \<Rightarrow> fs \<Rightarrow> exn option \<times> fs list" where
  "write_lines ft tmp i [] s = (None, [])"
| "write_lines ft tmp i (l # ls) s =
     (case l of
        Inl x \<Rightarrow> (Some x, [])
      | Inr cells \<Rightarrow>
          if ft = WriteFails i then (Some OSError, [])
          else let s' = fs_append tmp cells s;
                   (r, tr) = write_lines ft tmp (Suc i) ls s'
               in (r, s' # tr))"

text \<open>
  The \<^verbatim>\<open>finally\<close> block: the temporary file, if it is there, is unlinked, and a failure
  of the unlinking is swallowed.
\<close>

definition cleanup :: "env \<Rightarrow> path \<Rightarrow> fs \<Rightarrow> fs list" where
  "cleanup e tmp s = (if s tmp \<noteq> None \<and> \<not> unlink_fails e then [fs_unlink tmp s] else [])"

text \<open>
  \<^verbatim>\<open>write_csv_rows\<close> gives the exception it raises, if any, and the states the files go
  through, in order: what another process can see while the function runs. The state it
  leaves is the last of them.
\<close>

definition write_csv_rows ::
  "config \<Rightarrow> env \<Rightarrow> path \<Rightarrow> (string \<times> row) list \<Rightarrow> fs \<Rightarrow> exn option \<times> fs list" where
  "write_csv_rows cfg e p rows_by_date s0 =
     (let header = ''date'' # CURRENCIES cfg;
          tmp = with_suffix_tmp p;
          dates_sorted = sort (map fst rows_by_date)
      in if fault e = OpenFails then (Some OSError, cleanup e tmp s0)
         else
           let s1 = fs_create tmp s0;
               lines = Inr header #
                 map (\<lambda>d. case map_of rows_by_date d of
                             None \<Rightarrow> Inl KeyError
                           | Some r \<Rightarrow> dict_to_list e header r) dates_sorted;
               (r, tr) = write_lines (fault e) tmp 0 lines s1;
               s2 = last (s1 # tr)
           in case r of
                Some x \<Rightarrow> (Some x, s1 # tr @ cleanup e tmp s2)
              | None \<Rightarrow>
                  if fault e = ReplaceFails then (Some OSError, s1 # tr @ cleanup e tmp s2)
                  else let s3 = fs_replace tmp p s2
                       in (None, s1 # tr @ [s3] @ cleanup e tmp s3))"

text \<open>What a successful write leaves at the destination.\<close>

definition archive_of :: "config \<Rightarrow> env \<Rightarrow> (string \<times> row) list \<Rightarrow> csv_file" where
  "archive_of cfg e rows_by_date =
     \<lparr>records = (''date'' # CURRENCIES cfg) #
        map (\<lambda>d. case map_of rows_by_date d of
                    None \<Rightarrow> []
                  | Some r \<Rightarrow> map (\<lambda>k. case map_of r k of None \<Rightarrow> '''' | Some c \<Rightarrow> format_cell e c)
                               (''date'' # CURRENCIES cfg))
            (sort (map fst rows_by_date)),
      broken = False\<rparr>"

section \<open>Months and dates (\<^verbatim>\<open>months_since\<close>, \<^verbatim>\<open>dates_in_month\<close>)\<close>

text \<open>
  The generator's loop. It is entered with month 1 and then always has a month from 1 to
  12; for other months it need not end, so not returning is the value \<open>None\<close>.
\<close>

partial_function (option) months_loop ::
  "int \<times> int \<Rightarrow> int \<Rightarrow> int \<Rightarrow> (int \<times> int) list \<Rightarrow> (int \<times> int) list option" where
  "months_loop td y m acc =
     (if y < fst td \<or> (y = fst td \<and> m \<le> snd td)
      then (if m = 12 then months_loop td (y + 1) 1 (acc @ [(y, m)])
            else months_loop td y (m + 1) (acc @ [(y, m)]))
      else Some acc)"

declare months_loop.simps [code]

definition months_since :: "env \<Rightarrow> int \<Rightarrow> (int \<times> int) list option" where
  "months_since e year_start = months_loop (today e) year_start 1 []"

text \<open>\<^verbatim>\<open>calendar.monthrange(year, month)[1]\<close> and \<^verbatim>\<open>date(year, month, d).isoformat()\<close>.\<close>

definition isleap :: "int \<Rightarrow> bool" where
  "isleap year \<longleftrightarrow> year mod 4 = 0 \<and> (year mod 100 \<noteq> 0 \<or> year mod 400 = 0)"

definition mdays :: "int \<Rightarrow> int" where
  "mdays month = (if month = 2 then 28 else if month \<in> {4, 6, 9, 11} then 30 else 31)"

definition monthrange_days :: "int \<Rightarrow> int \<Rightarrow> exn + int" where
  "monthrange_days year month =
     (if \<not> (1 \<le> month \<and> month \<le> 12) then Inl ValueError
      else Inr (mdays month + (if month = 2 \<and> isleap year then 1 else 0)))"

definition digit :: "nat \<Rightarrow> char" where
  "digit n = ''0123456789'' ! (n mod 10)"

definition zfill2 :: "nat \<Rightarrow> string" where
  "zfill2 n = [digit (n div 10), digit n]"

definition zfill4 :: "nat \<Rightarrow> string" where
  "zfill4 n = [digit (n div 1000), digit (n div 100), digit (n div 10), digit n]"

definition date_isoformat :: "int \<Rightarrow> int \<Rightarrow> int \<Rightarrow> exn + string" where
  "date_isoformat year month day =
     (case monthrange_days year month of
        Inl x \<Rightarrow> Inl x
      | Inr nd \<Rightarrow>
          if 1 \<le> year \<and> year \<le> 9999 \<and> 1 \<le> day \<and> day \<le> nd
          then Inr (zfill4 (nat year) @ ''-'' @ zfill2 (nat month) @ ''-'' @ zfill2 (nat day))
          else Inl ValueError)"

text \<open>A list comprehension whose element expression can raise.\<close>

fun collect :: "(exn + 'a) list \<Rightarrow> exn + 'a list" where
  "collect [] = Inr []"
| "collect (Inl x # rest) = Inl x"
| "collect (Inr v # rest) = (case collect rest of Inl x \<Rightarrow> Inl x | Inr vs \<Rightarrow> Inr (v # vs))"

definition dates_in_month :: "int \<Rightarrow> int \<Rightarrow> exn + string list" where
  "dates_in_month year month =
     (case monthrange_days year month of
        Inl x \<Rightarrow> Inl x
      | Inr nd \<Rightarrow> collect (map (date_isoformat year month) [1..nd]))"

section \<open>The run (\<^verbatim>\<open>main\<close>)\<close>

text \<open>
  The scan for the first month with missing days, over the months the generator yields.
  \<^verbatim>\<open>d not in existing\<close> is the absence of the key.
\<close>

type_synonym target = "int \<times> int \<times> string list \<times> (string \<times> row) list"

definition missing_in :: "(string \<times> row) list \<Rightarrow> string list \<Rightarrow> string list" where
  "missing_in existing all_dates = filter (\<lambda>d. map_of existing d = None) all_dates"

fun locate :: "config \<Rightarrow> env \<Rightarrow> fs \<Rightarrow> (int \<times> int) list \<Rightarrow> exn + target option" where
  "locate cfg e s [] = Inr None"
| "locate cfg e s ((y, m) # ms) =
     (let existing = read_csv_rows cfg e s (csv_path_for y m)
      in case dates_in_month y m of
           Inl x \<Rightarrow> Inl x
         | Inr all_dates \<Rightarrow>
             let missing = missing_in existing all_dates
             in if missing \<noteq> [] then Inr (Some (y, m, missing, existing))
                else locate cfg e s ms)"

text \<open>The loop \<^verbatim>\<open>for dt in missing_dates\<close>: it stops at the first date whose fetch raises.\<close>

fun fetch_loop ::
  "config \<Rightarrow> env \<Rightarrow> string list \<Rightarrow> (string \<times> row) list \<Rightarrow> world
     \<Rightarrow> (exn option \<times> (string \<times> row) list) \<times> world" where
  "fetch_loop cfg e [] rows_fetched w = ((None, rows_fetched), w)"
| "fetch_loop cfg e (dt # dts) rows_fetched w =
     (case get_historical_for_date cfg e dt w of
        (Inl x, w') \<Rightarrow> ((Some x, rows_fetched), w')
      | (Inr row, w') \<Rightarrow> fetch_loop cfg e dts (AList.update dt row rows_fetched) w')"

text \<open>\<^verbatim>\<open>existing_rows.update(rows_fetched)\<close>.\<close>

definition dict_update :: "('k \<times> 'v) list \<Rightarrow> ('k \<times> 'v) list \<Rightarrow> ('k \<times> 'v) list" where
  "dict_update d other = fold (\<lambda>(k, v). AList.update k v) other d"

definition write_archive ::
  "config \<Rightarrow> env \<Rightarrow> path \<Rightarrow> (string \<times> row) list \<Rightarrow> world \<Rightarrow> exn option \<times> world" where
  "write_archive cfg e p rows_by_date w =
     (let (r, tr) = write_csv_rows cfg e p rows_by_date (files w)
      in (r, w\<lparr>files := last (files w # tr)\<rparr>))"

datatype result = Returned int | Uncaught exn | Diverges

text \<open>
  The body of \<^verbatim>\<open>with lock:\<close>. Every exception in it is caught by the handlers around
  it, which return 1.
\<close>

definition locked_section ::
  "config \<Rightarrow> env \<Rightarrow> int \<Rightarrow> int \<Rightarrow> string list \<Rightarrow> world \<Rightarrow> result \<times> world" where
  "locked_section cfg e year month planned w =
     (let p = csv_path_for year month;
          existing_rows = read_csv_rows cfg e (files w) p
      in case dates_in_month year month of
           Inl x \<Rightarrow> (Returned 1, w)
         | Inr all_dates \<Rightarrow>
             let missing_dates_current = missing_in existing_rows all_dates;
                 missing_dates = sort (filter (\<lambda>d. d \<in> set missing_dates_current) planned)
             in if missing_dates = [] then (Returned 0, w)
                else
                  (case fetch_loop cfg e missing_dates [] w of
                     ((Some x, rows_fetched), w') \<Rightarrow>
                       if rows_fetched \<noteq> [] then
                         (Returned 1,
                          snd (write_archive cfg e p (dict_update existing_rows rows_fetched) w'))
                       else (Returned 1, w')
                   | ((None, rows_fetched), w') \<Rightarrow>
                       (case write_archive cfg e p (dict_update existing_rows rows_fetched) w' of
                          (Some x, w'') \<Rightarrow> (Returned 1, w'')
                        | (None, w'') \<Rightarrow> (Returned 0, w''))))"

text \<open>
  \<^verbatim>\<open>main\<close>. The lock file itself is not among the files modelled. What other runs did to
  the files between the scan and the lock is applied when the lock is obtained.
\<close>

definition main :: "config \<Rightarrow> env \<Rightarrow> world \<Rightarrow> result \<times> world" where
  "main cfg e w0 =
     (case get_status cfg e w0 of
        (Inl x, w1) \<Rightarrow> (Uncaught x, w1)
      | (Inr None, w1) \<Rightarrow> (Returned 1, w1)
      | (Inr (Some status), w1) \<Rightarrow>
          (case months_since e (START_YEAR cfg) of
             None \<Rightarrow> (Diverges, w1)
           | Some ms \<Rightarrow>
               (case locate cfg e (files w1) ms of
                  Inl x \<Rightarrow> (Uncaught x, w1)
                | Inr None \<Rightarrow> (Returned 0, w1)
                | Inr (Some (year, month, missing_dates, existing_rows)) \<Rightarrow>
                    (case budget cfg (remaining status) missing_dates of
                       NoQuotaInfo \<Rightarrow> (Returned 1, w1)
                     | BelowBuffer \<Rightarrow> (Returned 0, w1)
                     | NoneAvailable \<Rightarrow> (Returned 0, w1)
                     | NotEnough \<Rightarrow> (Returned 0, w1)
                     | Fetch planned \<Rightarrow>
                         if \<not> lock_free e then (Returned 1, w1)
                         else locked_section cfg e year month planned
                                (w1\<lparr>files := others e (files w1)\<rparr>)))))"

text \<open>The lines \<^verbatim>\<open>write_csv_rows\<close> writes: the header, then one per date in sorted order.\<close>

definition archive_lines :: "config \<Rightarrow> env \<Rightarrow> (string \<times> row) list \<Rightarrow> (exn + string list) list" where
  "archive_lines cfg e rows_by_date =
     Inr (''date'' # CURRENCIES cfg) #
       map (\<lambda>d. case map_of rows_by_date d of
                   None \<Rightarrow> Inl KeyError
                 | Some r \<Rightarrow> dict_to_list e (''date'' # CURRENCIES cfg) r)
           (sort (map fst rows_by_date))"

text \<open>
  Words for the properties of a run. \<open>fetches\<close> are the dates for which a historical
  request was sent. \<open>reaches_lock\<close> says that a run gets as far as holding the lock: the
  status is obtained, the scan finds the month, the budget lets the dates \<open>planned\<close>
  through and the lock is free; \<open>wl\<close> is the state at that moment. \<open>still_missing\<close> are
  the planned dates that the re-read under the lock still finds missing, in the order in
  which they are fetched.
\<close>

definition fetches :: "world \<Rightarrow> string list" where
  "fetches w =
     concat (map (\<lambda>(rq, out). case rq of HistoricalReq d \<Rightarrow> [d] | StatusReq \<Rightarrow> []) (sent w))"

definition reaches_lock ::
  "config \<Rightarrow> env \<Rightarrow> world \<Rightarrow> int \<Rightarrow> int \<Rightarrow> string list \<Rightarrow> world \<Rightarrow> bool" where
  "reaches_lock cfg e w0 year month planned wl \<longleftrightarrow>
     (\<exists>status w1 ms missing existing.
        get_status cfg e w0 = (Inr (Some status), w1)
        \<and> months_since e (START_YEAR cfg) = Some ms
        \<and> locate cfg e (files w1) ms = Inr (Some (year, month, missing, existing))
        \<and> budget cfg (remaining status) missing = Fetch planned
        \<and> lock_free e
        \<and> wl = w1\<lparr>files := others e (files w1)\<rparr>)"

definition still_missing ::
  "config \<Rightarrow> env \<Rightarrow> int \<Rightarrow> int \<Rightarrow> string list \<Rightarrow> fs \<Rightarrow> string list" where
  "still_missing cfg e year month planned s =
     (case dates_in_month year month of
        Inl x \<Rightarrow> []
      | Inr all_dates \<Rightarrow>
          sort (filter (\<lambda>d. d \<in> set (missing_in (read_csv_rows cfg e s (csv_path_for year month))
                                       all_dates)) planned))"

text \<open>
  Words for the month locator: one month is \<open>earlier\<close> than another; a month has a \<open>gap\<close>
  when some day of it is not a key of the month's file as read; \<open>target_month\<close> is the
  month a scan selected.
\<close>

definition earlier :: "int \<times> int \<Rightarrow> int \<times> int \<Rightarrow> bool" where
  "earlier a b \<longleftrightarrow> fst a < fst b \<or> (fst a = fst b \<and> snd a < snd b)"

definition gap :: "config \<Rightarrow> env \<Rightarrow> fs \<Rightarrow> int \<times> int \<Rightarrow> bool" where
  "gap cfg e s ym =
     (case dates_in_month (fst ym) (snd ym) of
        Inl x \<Rightarrow> False
      | Inr all_dates \<Rightarrow>
          missing_in (read_csv_rows cfg e s (csv_path_for (fst ym) (snd ym))) all_dates \<noteq> [])"

definition target_month :: "exn + target option \<Rightarrow> (int \<times> int) option" where
  "target_month r =
     (case r of Inr (Some (y, m, missing, existing)) \<Rightarrow> Some (y, m) | _ \<Rightarrow> None)"

text \<open>
  Words for the rate limiter. \<open>window_count\<close> is the number of recorded requests in the
  trailing 60 seconds of the current moment. \<open>paced\<close> says of the log of all recorded
  timestamps that at each recording the trailing 60 seconds held at most \<open>mx\<close> recorded
  requests, the one being recorded included. \<open>log_ok\<close> ties the module's list to the
  log: the log is in time order and not ahead of the clock, the list and the log agree on
  every window from now on (the list only ever drops entries that have left the window),
  and the log is paced. \<open>rate_inv\<close> is the state between requests, \<open>slot_free\<close> the
  state in which a request may be sent.
\<close>

definition window_count :: "world \<Rightarrow> nat" where
  "window_count w = length (filter (in_window (clock w)) (recorded w))"

definition paced :: "int \<Rightarrow> real list \<Rightarrow> bool" where
  "paced mx lg \<longleftrightarrow>
     (\<forall>i < length lg. int (length (filter (in_window (lg ! i)) (take (Suc i) lg))) \<le> mx)"

definition log_ok :: "config \<Rightarrow> world \<Rightarrow> bool" where
  "log_ok cfg w \<longleftrightarrow>
     sorted (recorded w)
     \<and> (\<forall>t \<in> set (recorded w). t \<le> clock w)
     \<and> (\<forall>now. clock w \<le> now \<longrightarrow>
           filter (in_window now) (stamps w) = filter (in_window now) (recorded w))
     \<and> paced (MAX_PER_MINUTE cfg) (recorded w)"

definition rate_inv :: "config \<Rightarrow> world \<Rightarrow> bool" where
  "rate_inv cfg w \<longleftrightarrow> log_ok cfg w \<and> int (window_count w) \<le> max 0 (MAX_PER_MINUTE cfg)"

definition slot_free :: "config \<Rightarrow> world \<Rightarrow> bool" where
  "slot_free cfg w \<longleftrightarrow> log_ok cfg w \<and> int (window_count w) < MAX_PER_MINUTE cfg"

section \<open>Concrete inputs\<close>

text \<open>
  A configuration with the source's defaults (two currency columns, partial months
  allowed) and a list of ten missing days, given out of order.
\<close>

definition ex_cfg :: config where
  "ex_cfg = \<lparr>BASE_CURRENCY = ''USD'', START_YEAR = 2023, MAX_PER_MINUTE = 10,
     SAFETY_BUFFER = 1, ALLOW_PARTIAL_MONTH = True, MAX_RETRIES = 4,
     RETRY_BASE_SECONDS = 1, CURRENCIES = [''USD'', ''EUR'']\<rparr>"

definition ex_missing :: "string list" where
  "ex_missing = [''2023-03-10'', ''2023-03-02'', ''2023-03-05'', ''2023-03-07'',
     ''2023-03-08'', ''2023-03-09'', ''2023-03-04'', ''2023-03-11'', ''2023-03-12'',
     ''2023-03-13'']"

text \<open>
  A fresh run: clock at 0, nothing sent, no files. The stand-ins for \<^verbatim>\<open>float\<close> and
  \<^verbatim>\<open>repr\<close> agree with Python on the strings and values the examples use.
\<close>

definition ex_world :: world where
  "ex_world = \<lparr>clock = 0, step = 0, stamps = [], files = (\<lambda>p. None), sent = [], slept = [],
     recorded = []\<rparr>"

definition resp_of :: "int \<Rightarrow> response" where
  "resp_of code = \<lparr>status_code = code, body = Unusable\<rparr>"

definition ex_float :: "string \<Rightarrow> pyfloat option" where
  "ex_float s = (if s = ''1.5'' then Some (Finite (3 / 2))
                 else if s = ''1.0'' then Some (Finite 1) else None)"

definition ex_repr :: "pyfloat \<Rightarrow> string" where
  "ex_repr f = (if f = Finite (3 / 2) then ''1.5'' else if f = Finite 1 then ''1.0'' else ''nan'')"

text \<open>
  An outside in which the first transport call raises, the next answers 503 and every later
  one 429. A call that does not count against the rate limit interacts at steps 0 (request),
  1 (sleep), 2 (request), 3 (sleep), 4 (request).
\<close>

definition ex_env :: env where
  "ex_env = \<lparr>reply = (\<lambda>k. if k = 0 then Raises else if k = 2 then Responds (resp_of 503)
                          else Responds (resp_of 429)),
     delay = (\<lambda>k. 0), today = (2023, 3), lock_free = True, others = (\<lambda>s. s),
     fault = NoFault, unlink_fails = False, float_of_str = ex_float, repr_float = ex_repr\<rparr>"


text \<open>
  An outside that answers every request with 200 and a body whose quota has 5 requests
  remaining and whose data for 2 March 2023 gives the base currency the rate 5.
\<close>

definition ok_body :: body where
  "ok_body = Json (Some 5000) (Some 4995) (Some 5)
     [(''2023-03-02'', [(''USD'', JNumber (Finite 5)), (''EUR'', JNumber (Finite (9 / 10)))])]"

definition ok_env :: env where
  "ok_env = ex_env\<lparr>reply := (\<lambda>k. Responds \<lparr>status_code = 200, body = ok_body\<rparr>)\<rparr>"

text \<open>
  The file of March 2023: a record with a cell that is no number, an empty record, a
  record without a date, and a short record.
\<close>

definition ex_file :: csv_file where
  "ex_file = \<lparr>records =
       [[''date'', ''USD'', ''EUR''],
        [''2023-03-01'', ''abc'', ''1.5''],
        [],
        ['''', ''1.0'', ''1.0''],
        [''2023-03-02'', ''1.0'']],
     broken = False\<rparr>"

definition ex_fs :: fs where
  "ex_fs = (\<lambda>p. if p = csv_path_for 2023 3 then Some ex_file else None)"

text \<open>A file of March 2023 with two records of the same date.\<close>

definition dup_file :: csv_file where
  "dup_file = \<lparr>records =
       [[''date'', ''USD'', ''EUR''],
        [''2023-03-01'', ''1.0'', ''1.0''],
        [''2023-03-01'', ''1.5'', '''']],
     broken = False\<rparr>"

definition dup_fs :: fs where
  "dup_fs = (\<lambda>p. if p = csv_path_for 2023 3 then Some dup_file else None)"

text \<open>Two records, given out of date order, and the file a write of them leaves.\<close>

definition ex_rows :: "(string \<times> row) list" where
  "ex_rows =
     [(''2023-03-02'', [(''date'', Str ''2023-03-02''), (''USD'', Num (Finite 1)),
                        (''EUR'', Str '''')]),
      (''2023-03-01'', [(''date'', Str ''2023-03-01''), (''USD'', Str ''abc''),
                        (''EUR'', Num (Finite (3 / 2)))])]"

definition ex_written :: csv_file where
  "ex_written = \<lparr>records =
       [[''date'', ''USD'', ''EUR''],
        [''2023-03-01'', ''abc'', ''1.5''],
        [''2023-03-02'', ''1.0'', '''']],
     broken = False\<rparr>"

text \<open>
  The race of the lock revalidation: the archive is empty at the scan, so January 2023 is
  the target and its first four days are planned (5 remaining, buffer 1); before the lock
  is obtained another run writes exactly those four days.
\<close>

definition jan_file :: csv_file where
  "jan_file = \<lparr>records =
       [[''date'', ''USD'', ''EUR''],
        [''2023-01-01'', ''1.0'', ''1.5''],
        [''2023-01-02'', ''1.0'', ''1.5''],
        [''2023-01-03'', ''1.0'', ''1.5''],
        [''2023-01-04'', ''1.0'', ''1.5'']],
     broken = False\<rparr>"

definition race_env :: env where
  "race_env = ok_env\<lparr>others := (\<lambda>s. s(csv_path_for 2023 1 \<mapsto> jan_file))\<rparr>"

definition first_four :: "string list" where
  "first_four = [''2023-01-01'', ''2023-01-02'', ''2023-01-03'', ''2023-01-04'']"

text \<open>
  Quota exhausted at once: the status request (step 0) is answered, every later request
  gets 429. And quota exhausted after one day: the first historical request (step 2) is
  answered too.
\<close>

definition quota_env :: env where
  "quota_env = ok_env\<lparr>reply := (\<lambda>k. if k = 0 then Responds \<lparr>status_code = 200, body = ok_body\<rparr>
                                      else Responds (resp_of 429))\<rparr>"

definition one_day_env :: env where
  "one_day_env = ok_env\<lparr>reply := (\<lambda>k. if k = 0 \<or> k = 2
                                        then Responds \<lparr>status_code = 200, body = ok_body\<rparr>
                                        else Responds (resp_of 429))\<rparr>"


text \<open>
  An outside whose status answer has no request remaining.
\<close>

definition spent_env :: env where
  "spent_env = ok_env\<lparr>reply := (\<lambda>k. Responds \<lparr>status_code = 200,
       body = Json (Some 5000) (Some 5000) (Some 0) []\<rparr>)\<rparr>"

text \<open>The days of January 2023.\<close>

definition jan_dates :: "string list" where
  "jan_dates =
    [''2023-01-01'', ''2023-01-02'', ''2023-01-03'', ''2023-01-04'',
     ''2023-01-05'', ''2023-01-06'', ''2023-01-07'', ''2023-01-08'',
     ''2023-01-09'', ''2023-01-10'', ''2023-01-11'', ''2023-01-12'',
     ''2023-01-13'', ''2023-01-14'', ''2023-01-15'', ''2023-01-16'',
     ''2023-01-17'', ''2023-01-18'', ''2023-01-19'', ''2023-01-20'',
     ''2023-01-21'', ''2023-01-22'', ''2023-01-23'', ''2023-01-24'',
     ''2023-01-25'', ''2023-01-26'', ''2023-01-27'', ''2023-01-28'',
     ''2023-01-29'', ''2023-01-30'', ''2023-01-31'']"

text \<open>
  February 2023 as the current month, with an archive that has no file for January and one
  record, of 1 February, for February.
\<close>

definition feb_dates :: "string list" where
  "feb_dates =
    [''2023-02-01'', ''2023-02-02'', ''2023-02-03'', ''2023-02-04'',
     ''2023-02-05'', ''2023-02-06'', ''2023-02-07'', ''2023-02-08'',
     ''2023-02-09'', ''2023-02-10'', ''2023-02-11'', ''2023-02-12'',
     ''2023-02-13'', ''2023-02-14'', ''2023-02-15'', ''2023-02-16'',
     ''2023-02-17'', ''2023-02-18'', ''2023-02-19'', ''2023-02-20'',
     ''2023-02-21'', ''2023-02-22'', ''2023-02-23'', ''2023-02-24'',
     ''2023-02-25'', ''2023-02-26'', ''2023-02-27'', ''2023-02-28'']"

definition feb_file :: csv_file where
  "feb_file = \<lparr>records = [[''date'', ''USD'', ''EUR''], [''2023-02-01'', ''1.0'', ''1.5'']],
     broken = False\<rparr>"

definition feb_fs :: fs where
  "feb_fs = (\<lambda>p. if p = csv_path_for 2023 2 then Some feb_file else None)"

definition feb_env :: env where
  "feb_env = ex_env\<lparr>today := (2023, 2)\<rparr>"

text \<open>
  For the rate limiter: one request a minute; an outside in which every interaction takes
  a second; one in which the clock is set back by 100 seconds during the sixth
  interaction; and the states after a first historical request in each.
\<close>

definition slow_cfg :: config where
  "slow_cfg = ex_cfg\<lparr>MAX_PER_MINUTE := 1\<rparr>"

definition tick_env :: env where
  "tick_env = ok_env\<lparr>delay := (\<lambda>k. 1)\<rparr>"

definition back_env :: env where
  "back_env = ok_env\<lparr>delay := (\<lambda>k. if k = 5 then - 100 else 0)\<rparr>"

definition first_done :: world where
  "first_done = snd (do_request slow_cfg tick_env (HistoricalReq ''2023-03-02'') True ex_world)"

definition back_first :: world where
  "back_first = snd (do_request slow_cfg back_env (HistoricalReq ''2023-03-02'') True ex_world)"

section \<open>Budgeting: proofs\<close>

lemma take_sort_earliest:
  fixes xs :: "'a::linorder list"
  assumes "x \<in> set (take n (sort xs))" "y \<in> set (drop n (sort xs))"
  shows "x \<le> y"
proof -
  have "sorted (take n (sort xs) @ drop n (sort xs))" by simp
  then show ?thesis using assms unfolding sorted_append by blast
qed

lemma ex_missing_sorted:
  "take 4 (sort ex_missing) = [''2023-03-02'', ''2023-03-04'', ''2023-03-05'', ''2023-03-07'']"
  by code_simp

lemma ex_missing_length: "length ex_missing = 10"
  by (simp add: ex_missing_def)

section \<open>Requests: proofs\<close>

lemma tick_frame [simp]:
  "sent (tick e w) = sent w" "slept (tick e w) = slept w" "stamps (tick e w) = stamps w"
  "files (tick e w) = files w" "recorded (tick e w) = recorded w"
  "step (tick e w) = Suc (step w)" "clock (tick e w) = clock w + delay e (step w)"
  by (simp_all add: tick_def)

lemma time_time_eq: "time_time e w = (clock (tick e w), tick e w)"
  by (simp add: time_time_def Let_def)

lemma time_sleep_Inr:
  "time_sleep e k d w = Inr w' \<Longrightarrow>
     0 \<le> d \<and> sent w' = sent w \<and> slept w' = slept w @ [(k, d)] \<and> stamps w' = stamps w
     \<and> files w' = files w \<and> recorded w' = recorded w
     \<and> clock w' = clock w + delay e (step w) + d"
  by (auto simp: time_sleep_def Let_def split: if_splits)


lemma record_frame [simp]:
  "sent (record_request_timestamp e w) = sent w"
  "slept (record_request_timestamp e w) = slept w"
  "files (record_request_timestamp e w) = files w"
  by (simp_all add: record_request_timestamp_def time_time_eq)

lemma Min_in_window:
  assumes "ts \<noteq> []" "\<forall>t \<in> set ts. in_window now t"
  shows "0 \<le> 60 - (now - Min (set ts)) + 1 / 20"
proof -
  have "Min (set ts) \<in> set ts" using assms(1) by (simp add: Min_in)
  then have "in_window now (Min (set ts))" using assms(2) by blast
  then show ?thesis by (simp add: in_window_def)
qed

lemma wait_frame:
  assumes "wait_for_rate_slot cfg e w = (r, w')"
  shows "sent w' = sent w \<and> backoffs w' = backoffs w \<and> files w' = files w"
  using assms
  by (auto simp: wait_for_rate_slot_def Let_def backoffs_def time_time_eq
      split: if_splits sum.splits dest!: time_sleep_Inr)



lemma requests_get_frame:
  "requests_get e rq w = (out, w') \<Longrightarrow>
     out = reply e (step w) \<and> sent w' = sent w @ [(rq, out)] \<and> slept w' = slept w
     \<and> files w' = files w"
  by (auto simp: requests_get_def Let_def)

lemma backoffs_record [simp]: "backoffs (record_request_timestamp e w) = backoffs w"
  by (simp add: backoffs_def)












section \<open>Historical fetch: proofs\<close>

lemma fill_row_lookup:
  "fill_row day cs row = Inr r \<Longrightarrow>
     map_of r c = (if c \<in> set cs then Some (cell_of (map_of day c)) else map_of row c)"
proof (induction cs arbitrary: row)
  case Nil
  then show ?case by simp
next
  case (Cons a cs)
  show ?case
  proof (cases "map_of day a")
    case None
    with Cons.prems have "fill_row day cs (AList.update a (Str '''') row) = Inr r" by simp
    from Cons.IH [OF this] show ?thesis
      using None by (auto simp: update_conv' cell_of_def)
  next
    case (Some v)
    show ?thesis
    proof (cases v)
      case JNull
      with Some Cons.prems have "fill_row day cs (AList.update a (Str '''') row) = Inr r" by simp
      from Cons.IH [OF this] show ?thesis
        using Some JNull by (auto simp: update_conv' cell_of_def)
    next
      case (JNumber f)
      with Some Cons.prems have "fill_row day cs (AList.update a (Num f) row) = Inr r" by simp
      from Cons.IH [OF this] show ?thesis
        using Some JNumber by (auto simp: update_conv' cell_of_def)
    next
      case JUnconvertible
      with Some Cons.prems show ?thesis by simp
    qed
  qed
qed

text \<open>
  Claim C8, as amended. A record that \<^verbatim>\<open>get_historical_for_date\<close> returns has the rate
  1.0 for the base currency whenever the base currency is one of the configured
  currencies, whatever the API sent for it. A record has an entry for the configured
  currencies only: when the base currency is not among them, the record has no rate for it.
\<close>

theorem base_rate_is_one:
  assumes ok: "get_historical_for_date cfg e date_iso w = (Inr row, w')"
  shows "(BASE_CURRENCY cfg \<in> set (CURRENCIES cfg) \<longrightarrow>
            map_of row (BASE_CURRENCY cfg) = Some (Num (Finite 1)))
       \<and> (BASE_CURRENCY cfg \<notin> set (CURRENCIES cfg) \<longrightarrow>
            map_of row (BASE_CURRENCY cfg)
              = (if BASE_CURRENCY cfg = ''date'' then Some (Str date_iso) else None))"
proof -
  obtain res w1 where dr: "do_request cfg e (HistoricalReq date_iso) True w = (res, w1)"
    by (cases "do_request cfg e (HistoricalReq date_iso) True w")
  obtain day where fr: "fill_row (AList.update (BASE_CURRENCY cfg) (JNumber (Finite 1)) day)
      (CURRENCIES cfg) [(''date'', Str date_iso)] = Inr row"
    using ok dr
    by (auto simp: get_historical_for_date_def Let_def split: sum.splits if_splits body.splits)
  show ?thesis
    using fill_row_lookup [OF fr, of "BASE_CURRENCY cfg"]
    by (simp add: update_conv' cell_of_def)
qed

lemma ok_fetch_USD_EUR:
  "fst (get_historical_for_date ex_cfg ok_env ''2023-03-02'' ex_world)
     = Inr [(''date'', Str ''2023-03-02''), (''USD'', Num (Finite 1)),
            (''EUR'', Num (Finite (9 / 10)))]"
  by (simp add: get_historical_for_date_def do_request_def do_request_loop.simps
      wait_for_rate_slot_def record_request_timestamp_def time_time_def requests_get_def
      tick_def ok_env_def ex_env_def ex_cfg_def ex_world_def ok_body_def Let_def)

text \<open>The API sends 5 for USD against USD; the record has 1.\<close>

theorem base_rate_is_one_witness:
  "fst (get_historical_for_date ex_cfg ok_env ''2023-03-02'' ex_world)
     = Inr [(''date'', Str ''2023-03-02''), (''USD'', Num (Finite 1)),
            (''EUR'', Num (Finite (9 / 10)))]
   \<and> BASE_CURRENCY ex_cfg \<in> set (CURRENCIES ex_cfg)
   \<and> map_of [(''date'', Str ''2023-03-02''), (''USD'', Num (Finite 1)),
           (''EUR'', Num (Finite (9 / 10)))] (BASE_CURRENCY ex_cfg) = Some (Num (Finite 1))"
proof -
  obtain w' where "get_historical_for_date ex_cfg ok_env ''2023-03-02'' ex_world
      = (Inr [(''date'', Str ''2023-03-02''), (''USD'', Num (Finite 1)),
              (''EUR'', Num (Finite (9 / 10)))], w')"
    using ok_fetch_USD_EUR
    by (cases "get_historical_for_date ex_cfg ok_env ''2023-03-02'' ex_world") auto
  from base_rate_is_one [OF this] show ?thesis
    using ok_fetch_USD_EUR by (simp add: ex_cfg_def)
qed

text \<open>
  The claim as stated fails where the base currency is not a configured currency: with
  base USD and the columns EUR and GBP, a successful fetch gives a record without USD.
\<close>

theorem base_rate_counterexample:
  "fst (get_historical_for_date (ex_cfg\<lparr>CURRENCIES := [''EUR'', ''GBP'']\<rparr>) ok_env
         ''2023-03-02'' ex_world)
     = Inr [(''date'', Str ''2023-03-02''), (''EUR'', Num (Finite (9 / 10))), (''GBP'', Str '''')]
   \<and> map_of [(''date'', Str ''2023-03-02''), (''EUR'', Num (Finite (9 / 10))), (''GBP'', Str '''')]
        (BASE_CURRENCY (ex_cfg\<lparr>CURRENCIES := [''EUR'', ''GBP'']\<rparr>)) = None"
  by (simp add: get_historical_for_date_def do_request_def do_request_loop.simps
      wait_for_rate_slot_def record_request_timestamp_def time_time_def requests_get_def
      tick_def ok_env_def ex_env_def ex_cfg_def ex_world_def ok_body_def Let_def)

section \<open>Reading the archive: proofs\<close>

lemma normalize_cell_field:
  "normalize_cell e r c =
     (if field r c = '''' then Str ''''
      else case float_of_str e (field r c) of Some x \<Rightarrow> Num x | None \<Rightarrow> Str (field r c))"
  by (simp add: normalize_cell_def field_def split: option.splits)

lemma fold_update_lookup:
  "map_of (fold (\<lambda>c n. AList.update c (g c) n) cs init) c
     = (if c \<in> set cs then Some (g c) else map_of init c)"
  by (induction cs arbitrary: init) (auto simp: update_conv')

lemma normalize_row_lookup:
  "c \<in> set (CURRENCIES cfg) \<Longrightarrow>
     map_of (normalize_row cfg e r d) c = Some (normalize_cell e r c)"
  by (simp add: normalize_row_def fold_update_lookup)


lemma ex_read:
  "read_csv_rows ex_cfg ex_env ex_fs (csv_path_for 2023 3)
     = [(''2023-03-01'', [(''date'', Str ''2023-03-01''), (''USD'', Str ''abc''),
                          (''EUR'', Num (Finite (3 / 2)))]),
        (''2023-03-02'', [(''date'', Str ''2023-03-02''), (''USD'', Num (Finite 1)),
                          (''EUR'', Str '''')])]"
  by (simp add: read_csv_rows_def ex_fs_def ex_file_def dict_reader_def dict_row_def
      normalize_row_def normalize_cell_def ex_cfg_def ex_env_def ex_float_def csv_path_for_def)

section \<open>Writing the archive: proofs\<close>

lemma fs_append_other: "q \<noteq> tmp \<Longrightarrow> fs_append tmp l s q = s q"
  by (simp add: fs_append_def split: option.splits)

lemma fs_append_tmp:
  "s tmp = Some f \<Longrightarrow> fs_append tmp l s tmp = Some (f\<lparr>records := records f @ [l]\<rparr>)"
  by (simp add: fs_append_def)

lemma write_lines_other:
  "write_lines ft tmp i ls s = (r, tr) \<Longrightarrow> s' \<in> set tr \<Longrightarrow> q \<noteq> tmp \<Longrightarrow> s' q = s q"
proof (induction ls arbitrary: i s r tr)
  case Nil
  then show ?case by simp
next
  case (Cons l ls)
  show ?case
  proof (cases l)
    case (Inl x)
    with Cons.prems show ?thesis by simp
  next
    case (Inr cells)
    show ?thesis
    proof (cases "ft = WriteFails i")
      case True
      with Inr Cons.prems show ?thesis by simp
    next
      case False
      obtain r' tr' where rec: "write_lines ft tmp (Suc i) ls (fs_append tmp cells s) = (r', tr')"
        by (cases "write_lines ft tmp (Suc i) ls (fs_append tmp cells s)")
      with Inr False Cons.prems(1) have tr: "tr = fs_append tmp cells s # tr'" by simp
      show ?thesis
      proof (cases "s' = fs_append tmp cells s")
        case True
        then show ?thesis using Cons.prems(3) by (simp add: fs_append_other)
      next
        case False
        with tr Cons.prems(2) have "s' \<in> set tr'" by simp
        from Cons.IH [OF rec this Cons.prems(3)] show ?thesis
          using Cons.prems(3) by (simp add: fs_append_other)
      qed
    qed
  qed
qed

lemma write_lines_done:
  "write_lines ft tmp i ls s = (None, tr) \<Longrightarrow> s tmp = Some f \<Longrightarrow>
     \<exists>cells. ls = map Inr cells \<and> last (s # tr) tmp = Some (f\<lparr>records := records f @ cells\<rparr>)"
proof (induction ls arbitrary: i s tr f)
  case Nil
  then show ?case by simp
next
  case (Cons l ls)
  show ?case
  proof (cases l)
    case (Inl x)
    with Cons.prems show ?thesis by simp
  next
    case (Inr c)
    show ?thesis
    proof (cases "ft = WriteFails i")
      case True
      with Inr Cons.prems show ?thesis by simp
    next
      case False
      obtain r' tr' where rec: "write_lines ft tmp (Suc i) ls (fs_append tmp c s) = (r', tr')"
        by (cases "write_lines ft tmp (Suc i) ls (fs_append tmp c s)")
      with Inr False Cons.prems(1) have tr: "tr = fs_append tmp c s # tr'" and r': "r' = None"
        by simp_all
      have tmp': "fs_append tmp c s tmp = Some (f\<lparr>records := records f @ [c]\<rparr>)"
        using Cons.prems(2) by (rule fs_append_tmp)
      from Cons.IH [OF rec [unfolded r'] tmp']
      obtain cells where cells: "ls = map Inr cells"
        "last (fs_append tmp c s # tr') tmp
           = Some (f\<lparr>records := records f @ [c], records := records (f\<lparr>records := records f @ [c]\<rparr>) @ cells\<rparr>)"
        by auto
      show ?thesis
        apply (rule exI [of _ "c # cells"])
        using cells Inr tr by simp
    qed
  qed
qed

lemma write_lines_ok:
  "ft = NoFault \<or> ft = OpenFails \<or> ft = ReplaceFails \<Longrightarrow>
     \<exists>tr. write_lines ft tmp i (map Inr cells) s = (None, tr)"
proof (induction cells arbitrary: i s)
  case Nil
  then show ?case by simp
next
  case (Cons c cells)
  obtain tr where "write_lines ft tmp (Suc i) (map Inr cells) (fs_append tmp c s) = (None, tr)"
    using Cons by blast
  then show ?case using Cons.prems by auto
qed

lemma write_csv_rows_unfold:
  "write_csv_rows cfg e p rows s0 =
     (if fault e = OpenFails then (Some OSError, cleanup e (with_suffix_tmp p) s0)
      else
        let tmp = with_suffix_tmp p;
            s1 = fs_create tmp s0;
            r = fst (write_lines (fault e) tmp 0 (archive_lines cfg e rows) s1);
            tr = snd (write_lines (fault e) tmp 0 (archive_lines cfg e rows) s1);
            s2 = last (s1 # tr)
        in if r \<noteq> None \<or> fault e = ReplaceFails
           then ((if r \<noteq> None then r else Some OSError), s1 # tr @ cleanup e tmp s2)
           else (None, s1 # tr @ [fs_replace tmp p s2] @ cleanup e tmp (fs_replace tmp p s2)))"
  by (auto simp: write_csv_rows_def archive_lines_def Let_def split: prod.splits option.splits)

lemma cleanup_props:
  assumes "s' \<in> set (cleanup e tmp s)"
  shows "s' tmp = None \<and> (\<forall>q. q \<noteq> tmp \<longrightarrow> s' q = s q)"
  using assms by (auto simp: cleanup_def fs_unlink_def split: if_splits)

lemma cleanup_last:
  "\<not> unlink_fails e \<Longrightarrow> last (s # cleanup e tmp s) tmp = None"
  by (auto simp: cleanup_def fs_unlink_def)

lemma archive_lines_cells:
  assumes "archive_lines cfg e rows = map Inr cells"
  shows "cells = records (archive_of cfg e rows)"
proof -
  let ?hdr = "''date'' # CURRENCIES cfg"
  let ?g = "\<lambda>d. case map_of rows d of
                   None \<Rightarrow> Inl KeyError
                 | Some r \<Rightarrow> dict_to_list e ?hdr r"
  let ?h = "\<lambda>d. case map_of rows d of
                    None \<Rightarrow> []
                  | Some r \<Rightarrow> map (\<lambda>k. case map_of r k of None \<Rightarrow> '''' | Some c \<Rightarrow> format_cell e c) ?hdr"
  have gh: "c = ?h d" if "?g d = Inr c" for d c
    using that by (auto simp: dict_to_list_def split: option.splits if_splits)
  obtain c0 cs where cells: "cells = c0 # cs"
    using assms by (cases cells) (auto simp: archive_lines_def)
  have c0: "c0 = ?hdr" and cs: "map Inr cs = map ?g (sort (map fst rows))"
    using assms cells by (auto simp: archive_lines_def)
  have len: "length cs = length (sort (map fst rows))"
    using cs by (metis length_map)
  have "cs ! i = ?h (sort (map fst rows) ! i)" if "i < length cs" for i
  proof -
    have "map Inr cs ! i = map ?g (sort (map fst rows)) ! i" using cs by simp
    then have "?g (sort (map fst rows) ! i) = Inr (cs ! i)"
      using that len by simp
    then show ?thesis by (rule gh)
  qed
  then have "cs = map ?h (sort (map fst rows))"
    using len by (intro nth_equalityI) simp_all
  then show ?thesis using cells c0 by (simp add: archive_of_def)
qed

lemma map_all_Inr:
  "(\<forall>x \<in> set xs. \<exists>c. g x = Inr c) \<Longrightarrow> \<exists>cs. map g xs = map Inr cs"
proof (induction xs)
  case Nil
  then show ?case by simp
next
  case (Cons x xs)
  then obtain cs c where "map g xs = map Inr cs" "g x = Inr c" by auto
  then have "map g (x # xs) = map Inr (c # cs)" by simp
  then show ?case by blast
qed

lemma archive_lines_wellformed:
  assumes "\<forall>d row. map_of rows d = Some row \<longrightarrow> fst ` set row \<subseteq> set (''date'' # CURRENCIES cfg)"
  shows "\<exists>cells. archive_lines cfg e rows = map Inr cells"
proof -
  let ?hdr = "''date'' # CURRENCIES cfg"
  let ?g = "\<lambda>d. case map_of rows d of
                   None \<Rightarrow> Inl KeyError
                 | Some r \<Rightarrow> dict_to_list e ?hdr r"
  have "\<exists>c. ?g d = Inr c" if "d \<in> set (sort (map fst rows))" for d
  proof -
    from that have "d \<in> fst ` set rows" by simp
    then obtain r where r: "map_of rows d = Some r"
      by (metis domD dom_map_of_conv_image_fst)
    then have "fst ` set r \<subseteq> set ?hdr" using assms by blast
    then have "\<not> (\<exists>k \<in> set (map fst r). k \<notin> set ?hdr)" by auto
    then show ?thesis using r by (simp add: dict_to_list_def)
  qed
  then have "\<exists>cs. map ?g (sort (map fst rows)) = map Inr cs"
    by (intro map_all_Inr) blast
  then obtain cs where "map ?g (sort (map fst rows)) = map Inr cs" by blast
  then have "archive_lines cfg e rows = map Inr (?hdr # cs)"
    by (simp add: archive_lines_def)
  then show ?thesis by blast
qed

lemma write_csv_rows_shape:
  fixes cfg e year month rows s0
  defines "p \<equiv> csv_path_for year month"
      and "tmp \<equiv> with_suffix_tmp (csv_path_for year month)"
      and "W \<equiv> write_csv_rows cfg e (csv_path_for year month) rows s0"
      and "new \<equiv> archive_of cfg e rows"
  shows "(fst W \<noteq> None
            \<and> (\<forall>s \<in> set (snd W). s p = s0 p \<and> (\<forall>q. q \<noteq> p \<and> q \<noteq> tmp \<longrightarrow> s q = s0 q))
            \<and> (\<not> unlink_fails e \<longrightarrow> last (s0 # snd W) tmp = None))
       \<or> (fst W = None \<and> snd W \<noteq> []
            \<and> (\<forall>s \<in> set (snd W). (s p = s0 p \<or> s p = Some new)
                   \<and> (\<forall>q. q \<noteq> p \<and> q \<noteq> tmp \<longrightarrow> s q = s0 q))
            \<and> last (snd W) p = Some new \<and> last (snd W) tmp = None
            \<and> (\<exists>cells. archive_lines cfg e rows = map Inr cells))"
proof -
  have ne: "tmp \<noteq> p" and tmp: "with_suffix_tmp p = tmp"
    by (simp_all add: tmp_def p_def csv_path_for_def)
  define s1 where "s1 = fs_create tmp s0"
  define r0 where "r0 = fst (write_lines (fault e) tmp 0 (archive_lines cfg e rows) s1)"
  define tr0 where "tr0 = snd (write_lines (fault e) tmp 0 (archive_lines cfg e rows) s1)"
  define s2 where "s2 = last (s1 # tr0)"
  have wl: "write_lines (fault e) tmp 0 (archive_lines cfg e rows) s1 = (r0, tr0)"
    by (simp add: r0_def tr0_def)
  have s1_other: "s1 q = s0 q" if "q \<noteq> tmp" for q
    using that by (simp add: s1_def fs_create_def)
  have run: "s q = s0 q" if "s \<in> set (s1 # tr0)" "q \<noteq> tmp" for s q
    using that write_lines_other [OF wl, of s q] s1_other by auto
  have "s2 \<in> set (s1 # tr0)" unfolding s2_def by (rule last_in_set) simp
  then have s2_other: "s2 q = s0 q" if "q \<noteq> tmp" for q
    using run that by blast
  have W: "W = (if fault e = OpenFails then (Some OSError, cleanup e tmp s0)
      else if r0 \<noteq> None \<or> fault e = ReplaceFails
           then ((if r0 \<noteq> None then r0 else Some OSError), s1 # tr0 @ cleanup e tmp s2)
           else (None, s1 # tr0 @ [fs_replace tmp p s2] @ cleanup e tmp (fs_replace tmp p s2)))"
    unfolding W_def p_def [symmetric]
    by (simp add: write_csv_rows_unfold tmp Let_def s1_def r0_def tr0_def s2_def)
  show ?thesis
  proof (cases "fault e = OpenFails")
    case True
    then have W': "W = (Some OSError, cleanup e tmp s0)" using W by simp
    have "s p = s0 p \<and> (\<forall>q. q \<noteq> p \<and> q \<noteq> tmp \<longrightarrow> s q = s0 q)" if "s \<in> set (snd W)" for s
      using that cleanup_props [of s e tmp s0] ne by (auto simp: W')
    moreover have "\<not> unlink_fails e \<longrightarrow> last (s0 # snd W) tmp = None"
      using cleanup_last [of e s0 tmp] by (simp add: W')
    ultimately show ?thesis by (auto simp: W')
  next
    case False
    show ?thesis
    proof (cases "r0 \<noteq> None \<or> fault e = ReplaceFails")
      case True
      then have W': "W = ((if r0 \<noteq> None then r0 else Some OSError), s1 # tr0 @ cleanup e tmp s2)"
        using W False by simp
      have a: "fst W \<noteq> None" by (auto simp: W')
      have b: "s p = s0 p \<and> (\<forall>q. q \<noteq> p \<and> q \<noteq> tmp \<longrightarrow> s q = s0 q)" if "s \<in> set (snd W)" for s
      proof -
        from that have "s \<in> set (s1 # tr0) \<or> s \<in> set (cleanup e tmp s2)" by (auto simp: W')
        then show ?thesis
          using run [of s] cleanup_props [of s e tmp s2] s2_other ne by auto
      qed
      have "last (s0 # snd W) = last (s2 # cleanup e tmp s2)"
        by (simp add: W' s2_def)
      then have c: "\<not> unlink_fails e \<longrightarrow> last (s0 # snd W) tmp = None"
        using cleanup_last [of e s2 tmp] by simp
      show ?thesis using a b c by blast
    next
      case ok: False
      then have r0: "r0 = None" by simp
      define s3 where "s3 = fs_replace tmp p s2"
      have s1_tmp: "s1 tmp = Some \<lparr>records = [], broken = False\<rparr>"
        by (simp add: s1_def fs_create_def)
      obtain cells where cells: "archive_lines cfg e rows = map Inr cells"
        "s2 tmp = Some (\<lparr>records = [], broken = False\<rparr>\<lparr>records := records \<lparr>records = [], broken = False\<rparr> @ cells\<rparr>)"
        using write_lines_done [OF wl [unfolded r0] s1_tmp] unfolding s2_def by blast
      have s2_tmp: "s2 tmp = Some new"
        using cells(2) archive_lines_cells [OF cells(1)] by (simp add: new_def archive_of_def)
      have s3_p: "s3 p = Some new" and s3_tmp: "s3 tmp = None"
        using s2_tmp ne by (simp_all add: s3_def fs_replace_def)
      have s3_other: "s3 q = s0 q" if "q \<noteq> p" "q \<noteq> tmp" for q
        using that s2_other by (simp add: s3_def fs_replace_def)
      have cl: "cleanup e tmp s3 = []" using s3_tmp by (simp add: cleanup_def)
      have W': "W = (None, s1 # tr0 @ [s3])"
        using W False ok cl by (simp add: s3_def)
      have b: "(s p = s0 p \<or> s p = Some new) \<and> (\<forall>q. q \<noteq> p \<and> q \<noteq> tmp \<longrightarrow> s q = s0 q)"
        if "s \<in> set (snd W)" for s
      proof -
        from that have "s \<in> set (s1 # tr0) \<or> s = s3" by (auto simp: W')
        then show ?thesis
          using run [of s] s3_p s3_other ne by auto
      qed
      have "fst W = None" "snd W \<noteq> []" "last (snd W) = s3" by (simp_all add: W')
      then show ?thesis using b s3_p s3_tmp cells(1) by auto
    qed
  qed
qed

lemma write_csv_rows_succeeds:
  assumes nf: "fault e = NoFault"
      and wf: "\<forall>d row. map_of rows d = Some row \<longrightarrow> fst ` set row \<subseteq> set (''date'' # CURRENCIES cfg)"
  shows "fst (write_csv_rows cfg e p rows s0) = None"
proof -
  obtain cells where cells: "archive_lines cfg e rows = map Inr cells"
    using archive_lines_wellformed [OF wf] by blast
  obtain tr where "write_lines (fault e) (with_suffix_tmp p) 0 (archive_lines cfg e rows)
      (fs_create (with_suffix_tmp p) s0) = (None, tr)"
    using write_lines_ok [of "fault e" "with_suffix_tmp p" 0 cells] nf cells by auto
  then show ?thesis
    using nf by (simp add: write_csv_rows_unfold Let_def)
qed

lemma archive_of_dates:
  assumes "\<forall>d row. map_of rows d = Some row \<longrightarrow> map_of row ''date'' = Some (Str d)"
  shows "map hd (tl (records (archive_of cfg e rows))) = sort (map fst rows)"
proof -
  let ?line = "\<lambda>d. case map_of rows d of
                    None \<Rightarrow> []
                  | Some r \<Rightarrow> map (\<lambda>k. case map_of r k of None \<Rightarrow> '''' | Some c \<Rightarrow> format_cell e c)
                               (''date'' # CURRENCIES cfg)"
  have "hd (?line d) = d" if "d \<in> set (sort (map fst rows))" for d
  proof -
    from that have "d \<in> fst ` set rows" by simp
    then obtain r where r: "map_of rows d = Some r"
      by (metis domD dom_map_of_conv_image_fst)
    then have "map_of r ''date'' = Some (Str d)" using assms by blast
    then show ?thesis using r by (simp add: format_cell_def)
  qed
  then have "map (hd \<circ> ?line) (sort (map fst rows)) = sort (map fst rows)"
    by (intro map_idI) simp
  then show ?thesis
    by (simp add: archive_of_def)
qed

text \<open>
  Claim C5, as amended. For the archive file of a month, \<^verbatim>\<open>write_csv_rows\<close> writes the
  header (date, then the configured currencies) and the records in ascending order of
  date into the temporary sibling and then replaces the destination in one step: in every
  state that another process can see, the destination has its prior content or the
  complete new content, and no other file changes. When it raises, the destination has
  its prior content in every state, and the temporary file is gone at the end unless
  unlinking it fails (which the function ignores). Without a failure of the outside, and
  with records whose keys are columns, it does not raise.
\<close>

theorem write_csv_rows_atomic:
  fixes cfg e year month rows s0
  defines "p \<equiv> csv_path_for year month"
      and "tmp \<equiv> with_suffix_tmp (csv_path_for year month)"
      and "r \<equiv> fst (write_csv_rows cfg e (csv_path_for year month) rows s0)"
      and "tr \<equiv> snd (write_csv_rows cfg e (csv_path_for year month) rows s0)"
      and "new \<equiv> archive_of cfg e rows"
  shows "(\<forall>s \<in> set tr. (s p = s0 p \<or> s p = Some new)
                     \<and> (\<forall>q. q \<noteq> p \<and> q \<noteq> tmp \<longrightarrow> s q = s0 q))
       \<and> (r = None \<longrightarrow> tr \<noteq> [] \<and> last tr p = Some new \<and> last tr tmp = None)
       \<and> (r \<noteq> None \<longrightarrow> (\<forall>s \<in> set tr. s p = s0 p)
                       \<and> (\<not> unlink_fails e \<longrightarrow> last (s0 # tr) tmp = None))
       \<and> (fault e = NoFault
            \<and> (\<forall>d row. map_of rows d = Some row \<longrightarrow>
                         fst ` set row \<subseteq> set (''date'' # CURRENCIES cfg))
            \<longrightarrow> r = None)
       \<and> hd (records new) = ''date'' # CURRENCIES cfg
       \<and> ((\<forall>d row. map_of rows d = Some row \<longrightarrow> map_of row ''date'' = Some (Str d))
            \<longrightarrow> map hd (tl (records new)) = sort (map fst rows))"
proof -
  note sh = write_csv_rows_shape [of cfg e year month rows s0,
      folded p_def tmp_def r_def tr_def new_def]
  have 1: "\<forall>s \<in> set tr. (s p = s0 p \<or> s p = Some new)
                     \<and> (\<forall>q. q \<noteq> p \<and> q \<noteq> tmp \<longrightarrow> s q = s0 q)"
    using sh by blast
  have 2: "r = None \<longrightarrow> tr \<noteq> [] \<and> last tr p = Some new \<and> last tr tmp = None"
    using sh by blast
  have 3: "r \<noteq> None \<longrightarrow> (\<forall>s \<in> set tr. s p = s0 p)
                       \<and> (\<not> unlink_fails e \<longrightarrow> last (s0 # tr) tmp = None)"
    using sh by blast
  have 4: "fault e = NoFault
            \<and> (\<forall>d row. map_of rows d = Some row \<longrightarrow>
                         fst ` set row \<subseteq> set (''date'' # CURRENCIES cfg))
            \<longrightarrow> r = None"
    unfolding r_def using write_csv_rows_succeeds [of e rows cfg] by blast
  have 5: "hd (records new) = ''date'' # CURRENCIES cfg"
    by (simp add: new_def archive_of_def)
  have 6: "(\<forall>d row. map_of rows d = Some row \<longrightarrow> map_of row ''date'' = Some (Str d))
            \<longrightarrow> map hd (tl (records new)) = sort (map fst rows)"
    unfolding new_def using archive_of_dates [of rows cfg e] by blast
  show ?thesis using 1 2 3 4 5 6 by blast
qed

lemma ex_rows_wf:
  "\<forall>d row. map_of ex_rows d = Some row \<longrightarrow>
     fst ` set row \<subseteq> set (''date'' # CURRENCIES ex_cfg)"
  by (auto simp: ex_rows_def ex_cfg_def split: if_splits)

lemma ex_archive: "archive_of ex_cfg ex_env ex_rows = ex_written"
  by code_simp

lemma ex_replace_fails:
  "fst (write_csv_rows ex_cfg (ex_env\<lparr>fault := ReplaceFails\<rparr>) (csv_path_for 2023 3) ex_rows ex_fs)
     = Some OSError"
  by code_simp

text \<open>
  A write without failure leaves the two records in date order at the destination and no
  temporary file; a write whose replace step fails leaves the old file and no temporary
  file.
\<close>

theorem write_csv_rows_atomic_witness:
  "fst (write_csv_rows ex_cfg ex_env (csv_path_for 2023 3) ex_rows ex_fs) = None
   \<and> last (snd (write_csv_rows ex_cfg ex_env (csv_path_for 2023 3) ex_rows ex_fs))
        (csv_path_for 2023 3) = Some ex_written
   \<and> last (snd (write_csv_rows ex_cfg ex_env (csv_path_for 2023 3) ex_rows ex_fs))
        (with_suffix_tmp (csv_path_for 2023 3)) = None
   \<and> fst (write_csv_rows ex_cfg (ex_env\<lparr>fault := ReplaceFails\<rparr>) (csv_path_for 2023 3)
           ex_rows ex_fs) = Some OSError
   \<and> last (ex_fs # snd (write_csv_rows ex_cfg (ex_env\<lparr>fault := ReplaceFails\<rparr>)
           (csv_path_for 2023 3) ex_rows ex_fs)) (csv_path_for 2023 3) = Some ex_file
   \<and> last (ex_fs # snd (write_csv_rows ex_cfg (ex_env\<lparr>fault := ReplaceFails\<rparr>)
           (csv_path_for 2023 3) ex_rows ex_fs)) (with_suffix_tmp (csv_path_for 2023 3)) = None"
proof -
  note ok = write_csv_rows_atomic [of ex_cfg ex_env 2023 3 ex_rows ex_fs]
  note ko = write_csv_rows_atomic [of ex_cfg "ex_env\<lparr>fault := ReplaceFails\<rparr>" 2023 3 ex_rows ex_fs]
  have nf: "fault ex_env = NoFault" by (simp add: ex_env_def)
  have a: "fst (write_csv_rows ex_cfg ex_env (csv_path_for 2023 3) ex_rows ex_fs) = None"
    using ok nf ex_rows_wf by blast
  then have b: "last (snd (write_csv_rows ex_cfg ex_env (csv_path_for 2023 3) ex_rows ex_fs))
        (csv_path_for 2023 3) = Some ex_written"
    and c: "last (snd (write_csv_rows ex_cfg ex_env (csv_path_for 2023 3) ex_rows ex_fs))
        (with_suffix_tmp (csv_path_for 2023 3)) = None"
    using ok ex_archive by auto
  let ?tr = "snd (write_csv_rows ex_cfg (ex_env\<lparr>fault := ReplaceFails\<rparr>)
           (csv_path_for 2023 3) ex_rows ex_fs)"
  have ul: "\<not> unlink_fails (ex_env\<lparr>fault := ReplaceFails\<rparr>)" by (simp add: ex_env_def)
  have all: "\<forall>s \<in> set ?tr. s (csv_path_for 2023 3) = ex_fs (csv_path_for 2023 3)"
    and e: "last (ex_fs # ?tr) (with_suffix_tmp (csv_path_for 2023 3)) = None"
    using ko ex_replace_fails ul by auto
  have "last (ex_fs # ?tr) \<in> set (ex_fs # ?tr)" by (rule last_in_set) simp
  then have d: "last (ex_fs # ?tr) (csv_path_for 2023 3) = Some ex_file"
    using all by (auto simp: ex_fs_def)
  show ?thesis using a b c ex_replace_fails d e by blast
qed

text \<open>
  The claim as stated fails when the unlinking fails too: the write of the first record
  fails, and the temporary file stays, holding the header.
\<close>

theorem write_csv_rows_counterexample:
  "fst (write_csv_rows ex_cfg (ex_env\<lparr>fault := WriteFails 1, unlink_fails := True\<rparr>)
          (csv_path_for 2023 3) ex_rows ex_fs) = Some OSError
   \<and> last (snd (write_csv_rows ex_cfg (ex_env\<lparr>fault := WriteFails 1, unlink_fails := True\<rparr>)
          (csv_path_for 2023 3) ex_rows ex_fs)) (with_suffix_tmp (csv_path_for 2023 3))
       = Some \<lparr>records = [[''date'', ''USD'', ''EUR'']], broken = False\<rparr>"
  by code_simp

section \<open>The run: proofs\<close>

lemma wait_frame2:
  "files (snd (wait_for_rate_slot cfg e w)) = files w
   \<and> sent (snd (wait_for_rate_slot cfg e w)) = sent w"
  using wait_frame [of cfg e w] by (cases "wait_for_rate_slot cfg e w") auto

lemma do_request_loop_frame:
  "files (snd (do_request_loop cfg e rq car a w)) = files w
   \<and> (\<exists>outs. sent (snd (do_request_loop cfg e rq car a w)) = sent w @ map (Pair rq) outs)"
proof (induction cfg e rq car a w rule: do_request_loop.induct)
  case (1 cfg e rq car a w)
  define w1 where "w1 = (if car then snd (wait_for_rate_slot cfg e w) else w)"
  define stop where "stop = (if car then fst (wait_for_rate_slot cfg e w) else None)"
  have lim: "(if car then wait_for_rate_slot cfg e w else (None, w)) = (stop, w1)"
    by (simp add: w1_def stop_def)
  have f1: "files w1 = files w" "sent w1 = sent w"
    using wait_frame2 [of cfg e w] by (auto simp: w1_def)
  obtain out w2 where rg: "requests_get e rq w1 = (out, w2)"
    by (cases "requests_get e rq w1")
  have f2: "files w2 = files w" "sent w2 = sent w @ [(rq, out)]"
    using requests_get_frame [OF rg] f1 by auto
  define w3 where "w3 = (if car then record_request_timestamp e w2 else w2)"
  have f3: "files w3 = files w" "sent w3 = sent w @ [(rq, out)]"
    using f2 by (auto simp: w3_def)
  have one: "\<exists>outs. sent w @ [(rq, out)] = sent w @ map (Pair rq) outs"
    by (rule exI [of _ "[out]"]) simp
  have more: "\<exists>outs. sent w' = sent w @ map (Pair rq) outs"
    if "sent w' = (sent w @ [(rq, out)]) @ map (Pair rq) outs'" for w' outs'
    by (rule exI [of _ "out # outs'"]) (simp add: that)
  show ?case
  proof (cases stop)
    case (Some x)
    then show ?thesis
      apply (subst (1 2) do_request_loop.simps)
      using f1 by (simp add: lim Let_def exI [of _ "[]"])
  next
    case None
    show ?thesis
    proof (cases out)
      case Raises
      show ?thesis
      proof (cases "int (a + 1) \<le> MAX_RETRIES cfg")
        case False
        then show ?thesis
          apply (subst (1 2) do_request_loop.simps)
          using None Raises f2 one by (simp add: lim rg Let_def)
      next
        case True
        show ?thesis
        proof (cases "time_sleep e Backoff (backoff cfg (a + 1)) w2")
          case (Inl x)
          then show ?thesis
            apply (subst (1 2) do_request_loop.simps)
            using None Raises True f2 one by (simp add: lim rg Let_def)
        next
          case (Inr w4)
          have f4: "files w4 = files w" "sent w4 = sent w @ [(rq, out)]"
            using time_sleep_Inr [OF Inr] f2 by auto
          have ih: "files (snd (do_request_loop cfg e rq car (a + 1) w4)) = files w4
             \<and> (\<exists>outs. sent (snd (do_request_loop cfg e rq car (a + 1) w4))
                   = sent w4 @ map (Pair rq) outs)"
            using "1.IH"(1) [OF refl refl lim [symmetric] None rg [symmetric] Raises True Inr]
            by simp
          have eq: "do_request_loop cfg e rq car a w = do_request_loop cfg e rq car (a + 1) w4"
            apply (subst do_request_loop.simps)
            using None Raises True Inr by (simp add: lim rg Let_def)
          show ?thesis unfolding eq using ih f4 more by auto
        qed
      qed
    next
      case (Responds resp)
      show ?thesis
      proof (cases "status_code resp \<ge> 500 \<and> int (a + 1) \<le> MAX_RETRIES cfg")
        case False
        then show ?thesis
          apply (subst (1 2) do_request_loop.simps)
          using None Responds f3 one by (auto simp: lim rg Let_def w3_def)
      next
        case True
        show ?thesis
        proof (cases "time_sleep e Backoff (backoff cfg (a + 1)) w3")
          case (Inl x)
          then show ?thesis
            apply (subst (1 2) do_request_loop.simps)
            using None Responds True f3 one by (auto simp: lim rg Let_def w3_def)
        next
          case (Inr w4)
          have f4: "files w4 = files w" "sent w4 = sent w @ [(rq, out)]"
            using time_sleep_Inr [OF Inr] f3 by auto
          have ih: "files (snd (do_request_loop cfg e rq car (a + 1) w4)) = files w4
             \<and> (\<exists>outs. sent (snd (do_request_loop cfg e rq car (a + 1) w4))
                   = sent w4 @ map (Pair rq) outs)"
            using "1.IH"(2) [OF refl refl lim [symmetric] None rg [symmetric] Responds
                w3_def True Inr]
            by simp
          have eq: "do_request_loop cfg e rq car a w = do_request_loop cfg e rq car (a + 1) w4"
            apply (subst do_request_loop.simps)
            using None Responds True Inr by (auto simp: lim rg Let_def w3_def)
          show ?thesis unfolding eq using ih f4 more by auto
        qed
      qed
    qed
  qed
qed

lemma fetches_append [simp]: "sent w' = sent w @ xs \<Longrightarrow>
  fetches w' = fetches w @ concat (map (\<lambda>(rq, out). case rq of HistoricalReq d \<Rightarrow> [d] | StatusReq \<Rightarrow> []) xs)"
  by (simp add: fetches_def)

lemma do_request_frame:
  assumes "do_request cfg e rq car w = (r, w')"
  shows "files w' = files w"
    and "rq = StatusReq \<Longrightarrow> fetches w' = fetches w"
    and "rq = HistoricalReq d \<Longrightarrow> \<exists>n. fetches w' = fetches w @ replicate n d"
proof -
  obtain outs where o: "files w' = files w" "sent w' = sent w @ map (Pair rq) outs"
    using do_request_loop_frame [of cfg e rq car 0 w] assms by (auto simp: do_request_def)
  show "files w' = files w" by (rule o(1))
  have s: "concat (map (\<lambda>(rq, out). case rq of HistoricalReq d \<Rightarrow> [d] | StatusReq \<Rightarrow> [])
       (map (Pair StatusReq) outs)) = []"
    by (induction outs) auto
  have h: "concat (map (\<lambda>(rq, out). case rq of HistoricalReq d \<Rightarrow> [d] | StatusReq \<Rightarrow> [])
       (map (Pair (HistoricalReq d)) outs)) = replicate (length outs) d"
    by (induction outs) auto
  show "rq = StatusReq \<Longrightarrow> fetches w' = fetches w"
    using fetches_append [OF o(2)] s by simp
  show "rq = HistoricalReq d \<Longrightarrow> \<exists>n. fetches w' = fetches w @ replicate n d"
    using fetches_append [OF o(2)] h by auto
qed

lemma get_status_frame:
  assumes "get_status cfg e w = (r, w')"
  shows "files w' = files w \<and> fetches w' = fetches w"
proof -
  obtain r0 w1 where dr: "do_request cfg e StatusReq False w = (r0, w1)"
    by (cases "do_request cfg e StatusReq False w")
  have "w' = w1"
    using assms dr by (auto simp: get_status_def split: sum.splits if_splits body.splits)
  then show ?thesis using do_request_frame(1,2) [OF dr] by simp
qed

lemma get_historical_frame:
  assumes "get_historical_for_date cfg e d w = (r, w')"
  shows "files w' = files w \<and> (\<exists>n. fetches w' = fetches w @ replicate n d)"
proof -
  obtain r0 w1 where dr: "do_request cfg e (HistoricalReq d) True w = (r0, w1)"
    by (cases "do_request cfg e (HistoricalReq d) True w")
  have "w' = w1"
    using assms dr
    by (auto simp: get_historical_for_date_def Let_def split: sum.splits if_splits body.splits)
  then show ?thesis using do_request_frame(1,3) [OF dr] by simp
qed

lemma fetch_loop_files:
  "fetch_loop cfg e dts acc w = (r, w') \<Longrightarrow> files w' = files w"
proof (induction dts arbitrary: acc w)
  case Nil
  then show ?case by simp
next
  case (Cons dt dts)
  obtain r0 w1 where gh: "get_historical_for_date cfg e dt w = (r0, w1)"
    by (cases "get_historical_for_date cfg e dt w")
  have f: "files w1 = files w" using get_historical_frame [OF gh] by simp
  show ?case
  proof (cases r0)
    case (Inl x)
    then show ?thesis using Cons.prems gh f by simp
  next
    case (Inr row)
    then have "fetch_loop cfg e dts (AList.update dt row acc) w1 = (r, w')"
      using Cons.prems gh by simp
    from Cons.IH [OF this] show ?thesis using f by simp
  qed
qed

lemma fetch_loop_Nil: "fetch_loop cfg e [] acc w = ((None, acc), w)"
  by simp

lemma locate_Some:
  "locate cfg e s ms = Inr (Some (y, m, missing, existing)) \<Longrightarrow>
     (y, m) \<in> set ms \<and> existing = read_csv_rows cfg e s (csv_path_for y m)
     \<and> missing \<noteq> []
     \<and> (\<exists>all_dates. dates_in_month y m = Inr all_dates \<and> missing = missing_in existing all_dates)"
proof (induction ms)
  case Nil
  then show ?case by simp
next
  case (Cons ym ms)
  obtain y' m' where ym: "ym = (y', m')" by (cases ym)
  show ?case
  proof (cases "dates_in_month y' m'")
    case (Inl x)
    then show ?thesis using Cons.prems ym by (simp add: Let_def)
  next
    case (Inr all_dates)
    show ?thesis
    proof (cases "missing_in (read_csv_rows cfg e s (csv_path_for y' m')) all_dates = []")
      case True
      then have "locate cfg e s ms = Inr (Some (y, m, missing, existing))"
        using Cons.prems ym Inr by (simp add: Let_def)
      from Cons.IH [OF this] show ?thesis by auto
    next
      case False
      then show ?thesis using Cons.prems ym Inr by (auto simp: Let_def)
    qed
  qed
qed

lemma main_at_lock:
  assumes "reaches_lock cfg e w0 year month planned wl"
  shows "main cfg e w0 = locked_section cfg e year month planned wl"
    and "fetches wl = fetches w0"
    and "files wl = others e (files w0)"
    and "\<exists>all_dates. dates_in_month year month = Inr all_dates"
proof -
  obtain status w1 ms missing existing where h:
    "get_status cfg e w0 = (Inr (Some status), w1)"
    "months_since e (START_YEAR cfg) = Some ms"
    "locate cfg e (files w1) ms = Inr (Some (year, month, missing, existing))"
    "budget cfg (remaining status) missing = Fetch planned"
    "lock_free e"
    "wl = w1\<lparr>files := others e (files w1)\<rparr>"
    using assms unfolding reaches_lock_def by blast
  show "main cfg e w0 = locked_section cfg e year month planned wl"
    using h by (simp add: main_def)
  have f: "files w1 = files w0 \<and> fetches w1 = fetches w0"
    using get_status_frame [OF h(1)] .
  show "fetches wl = fetches w0" using f h(6) by (simp add: fetches_def)
  show "files wl = others e (files w0)" using f h(6) by simp
  show "\<exists>all_dates. dates_in_month year month = Inr all_dates"
    using locate_Some [OF h(3)] by blast
qed

lemma locked_section_unfold:
  assumes "dates_in_month year month = Inr all_dates"
  shows "locked_section cfg e year month planned w =
     (let p = csv_path_for year month;
          existing_rows = read_csv_rows cfg e (files w) p;
          missing_dates = still_missing cfg e year month planned (files w)
      in if missing_dates = [] then (Returned 0, w)
         else
           (case fetch_loop cfg e missing_dates [] w of
              ((Some x, rows_fetched), w') \<Rightarrow>
                if rows_fetched \<noteq> [] then
                  (Returned 1,
                   snd (write_archive cfg e p (dict_update existing_rows rows_fetched) w'))
                else (Returned 1, w')
            | ((None, rows_fetched), w') \<Rightarrow>
                (case write_archive cfg e p (dict_update existing_rows rows_fetched) w' of
                   (Some x, w'') \<Rightarrow> (Returned 1, w'')
                 | (None, w'') \<Rightarrow> (Returned 0, w''))))"
  using assms by (simp add: locked_section_def still_missing_def Let_def)

lemma still_missing_empty:
  assumes "\<forall>d \<in> set planned. map_of (read_csv_rows cfg e s (csv_path_for year month)) d \<noteq> None"
  shows "still_missing cfg e year month planned s = []"
proof (cases "dates_in_month year month")
  case (Inl x)
  then show ?thesis by (simp add: still_missing_def)
next
  case (Inr all_dates)
  have "filter (\<lambda>d. d \<in> set (missing_in (read_csv_rows cfg e s (csv_path_for year month))
                                       all_dates)) planned = []"
    using assms by (auto simp: missing_in_def filter_empty_conv)
  then show ?thesis using Inr by (simp add: still_missing_def)
qed

text \<open>
  Claim C2. A run that holds the lock re-reads the month's file. When every planned date
  is a key of what it reads there, the run returns 0 in the state in which it obtained
  the lock: it has sent no historical request and has written nothing (the files are as
  the other processes left them).
\<close>

theorem lock_revalidation:
  assumes rl: "reaches_lock cfg e w0 year month planned wl"
      and filled: "\<forall>d \<in> set planned.
          map_of (read_csv_rows cfg e (files wl) (csv_path_for year month)) d \<noteq> None"
  shows "main cfg e w0 = (Returned 0, wl)
       \<and> fetches wl = fetches w0
       \<and> files wl = others e (files w0)"
proof -
  obtain all_dates where d: "dates_in_month year month = Inr all_dates"
    using main_at_lock(4) [OF rl] by blast
  have "locked_section cfg e year month planned wl = (Returned 0, wl)"
    using still_missing_empty [OF filled]
    by (simp add: locked_section_unfold [OF d] Let_def)
  then show ?thesis using main_at_lock [OF rl] by simp
qed

text \<open>
  Claim C9. When the fetch loop of a run that holds the lock fails with no record
  collected, the run returns 1 and writes nothing: the files are as they were when the
  lock was obtained.
\<close>

theorem nothing_fetched_nothing_written:
  assumes rl: "reaches_lock cfg e w0 year month planned wl"
      and fl: "fetch_loop cfg e (still_missing cfg e year month planned (files wl)) [] wl
                 = ((Some x, []), w')"
  shows "main cfg e w0 = (Returned 1, w')
       \<and> files w' = others e (files w0)"
proof -
  obtain all_dates where d: "dates_in_month year month = Inr all_dates"
    using main_at_lock(4) [OF rl] by blast
  have ne: "still_missing cfg e year month planned (files wl) \<noteq> []"
    using fl by (auto simp: fetch_loop_Nil)
  have "locked_section cfg e year month planned wl = (Returned 1, w')"
    using ne fl by (simp add: locked_section_unfold [OF d] Let_def)
  moreover have "files w' = files wl" using fetch_loop_files [OF fl] .
  ultimately show ?thesis using main_at_lock [OF rl] by simp
qed

lemma dates_jan: "dates_in_month 2023 1 = Inr jan_dates"
  by (simp add: dates_in_month_def monthrange_days_def mdays_def isleap_def date_isoformat_def
      zfill4_def zfill2_def digit_def upto.simps jan_dates_def)

lemma locate_first:
  assumes "dates_in_month y m = Inr all_dates"
      and "missing_in (read_csv_rows cfg e s (csv_path_for y m)) all_dates \<noteq> []"
  shows "locate cfg e s ((y, m) # ms)
     = Inr (Some (y, m, missing_in (read_csv_rows cfg e s (csv_path_for y m)) all_dates,
                  read_csv_rows cfg e s (csv_path_for y m)))"
  using assms by (simp add: Let_def)

lemma budget_jan: "budget ex_cfg (Some 5) jan_dates = Fetch first_four"
  by code_simp

lemma reaches_lockI:
  assumes "fst (get_status cfg e w0) = Inr (Some status)"
      and "months_since e (START_YEAR cfg) = Some ms"
      and "locate cfg e (files (snd (get_status cfg e w0))) ms
             = Inr (Some (year, month, missing, existing))"
      and "budget cfg (remaining status) missing = Fetch planned"
      and "lock_free e"
  shows "reaches_lock cfg e w0 year month planned
           ((snd (get_status cfg e w0))\<lparr>files := others e (files (snd (get_status cfg e w0)))\<rparr>)"
  unfolding reaches_lock_def
  apply (rule exI [of _ status], rule exI [of _ "snd (get_status cfg e w0)"])
  apply (rule exI [of _ ms], rule exI [of _ missing], rule exI [of _ existing])
  using assms by (simp add: prod_eq_iff)

lemma files_after_status: "files (snd (get_status cfg e w)) = files w"
  using get_status_frame [of cfg e w] by (cases "get_status cfg e w") auto

lemma months_2023_3: "months_loop (2023, 3) 2023 1 [] = Some [(2023, 1), (2023, 2), (2023, 3)]"
  by code_simp

lemma empty_archive_reaches_lock:
  assumes st: "fst (get_status ex_cfg e ex_world)
      = Inr (Some \<lparr>total = Some 5000, used = Some 4995, remaining = Some 5\<rparr>)"
      and td: "today e = (2023, 3)"
      and lk: "lock_free e"
  shows "reaches_lock ex_cfg e ex_world 2023 1 first_four
     ((snd (get_status ex_cfg e ex_world))\<lparr>files := others e (files ex_world)\<rparr>)"
proof -
  have b: "months_since e (START_YEAR ex_cfg) = Some [(2023, 1), (2023, 2), (2023, 3)]"
    using months_2023_3 by (simp add: months_since_def td ex_cfg_def)
  have rd: "read_csv_rows ex_cfg e (files ex_world) (csv_path_for 2023 1) = []"
    by (simp add: read_csv_rows_def ex_world_def)
  have ms: "missing_in [] jan_dates = jan_dates" by (simp add: missing_in_def)
  have ne: "jan_dates \<noteq> []" by (simp add: jan_dates_def)
  have c: "locate ex_cfg e (files (snd (get_status ex_cfg e ex_world)))
          [(2023, 1), (2023, 2), (2023, 3)] = Inr (Some (2023, 1, jan_dates, []))"
    using locate_first [OF dates_jan, of ex_cfg e "files ex_world"] rd ms ne
    by (simp add: files_after_status)
  have d: "budget ex_cfg (remaining \<lparr>total = Some 5000, used = Some 4995, remaining = Some 5\<rparr>)
          jan_dates = Fetch first_four"
    using budget_jan by simp
  show ?thesis
    using reaches_lockI [OF st b c d lk] by (simp add: files_after_status)
qed

lemma first_four_in_jan: "sort (filter (\<lambda>d. d \<in> set jan_dates) first_four) = first_four"
  by code_simp

lemma still_first_four:
  "read_csv_rows ex_cfg e s (csv_path_for 2023 1) = [] \<Longrightarrow>
     still_missing ex_cfg e 2023 1 first_four s = first_four"
  using first_four_in_jan by (simp add: still_missing_def dates_jan missing_in_def)

lemma empty_read: "read_csv_rows cfg e (\<lambda>p. None) p = []"
  by (simp add: read_csv_rows_def)

lemma race_reaches_lock:
  "reaches_lock ex_cfg race_env ex_world 2023 1 first_four
     ((snd (get_status ex_cfg race_env ex_world))\<lparr>files := others race_env (files ex_world)\<rparr>)"
proof (rule empty_archive_reaches_lock)
  show "fst (get_status ex_cfg race_env ex_world)
      = Inr (Some \<lparr>total = Some 5000, used = Some 4995, remaining = Some 5\<rparr>)"
    by code_simp
  show "today race_env = (2023, 3)" by code_simp
  show "lock_free race_env" by code_simp
qed

lemma race_filled:
  "\<forall>d \<in> set first_four.
     map_of (read_csv_rows ex_cfg race_env
        (files ((snd (get_status ex_cfg race_env ex_world))\<lparr>files := others race_env (files ex_world)\<rparr>))
        (csv_path_for 2023 1)) d \<noteq> None"
proof -
  have "read_csv_rows ex_cfg race_env (others race_env (files ex_world)) (csv_path_for 2023 1)
      = [(''2023-01-01'', [(''date'', Str ''2023-01-01''), (''USD'', Num (Finite 1)),
                           (''EUR'', Num (Finite (3 / 2)))]),
         (''2023-01-02'', [(''date'', Str ''2023-01-02''), (''USD'', Num (Finite 1)),
                           (''EUR'', Num (Finite (3 / 2)))]),
         (''2023-01-03'', [(''date'', Str ''2023-01-03''), (''USD'', Num (Finite 1)),
                           (''EUR'', Num (Finite (3 / 2)))]),
         (''2023-01-04'', [(''date'', Str ''2023-01-04''), (''USD'', Num (Finite 1)),
                           (''EUR'', Num (Finite (3 / 2)))])]"
    by code_simp
  then show ?thesis by (simp add: first_four_def)
qed

text \<open>
  The other run has filled the four planned days: this run returns 0, has sent no
  historical request, and the files are as the other run left them.
\<close>

theorem lock_revalidation_witness:
  "fst (main ex_cfg race_env ex_world) = Returned 0
   \<and> fetches (snd (main ex_cfg race_env ex_world)) = []
   \<and> files (snd (main ex_cfg race_env ex_world)) = others race_env (files ex_world)"
  using lock_revalidation [OF race_reaches_lock race_filled]
  by (simp add: fetches_def ex_world_def)

lemma quota_reaches_lock:
  "reaches_lock ex_cfg quota_env ex_world 2023 1 first_four
     ((snd (get_status ex_cfg quota_env ex_world))\<lparr>files := (\<lambda>p. None)\<rparr>)"
proof -
  have "fst (get_status ex_cfg quota_env ex_world)
      = Inr (Some \<lparr>total = Some 5000, used = Some 4995, remaining = Some 5\<rparr>)"
    by code_simp
  moreover have "today quota_env = (2023, 3)" by code_simp
  moreover have "lock_free quota_env" by code_simp
  moreover have "others quota_env (files ex_world) = (\<lambda>p. None)"
    by (simp add: quota_env_def ok_env_def ex_env_def ex_world_def)
  ultimately show ?thesis using empty_archive_reaches_lock [of quota_env] by simp
qed

lemma quota_fetch_fails:
  "fst (fetch_loop ex_cfg quota_env first_four []
          ((snd (get_status ex_cfg quota_env ex_world))\<lparr>files := (\<lambda>p. None)\<rparr>))
     = (Some RuntimeError429, [])"
  by code_simp

lemma quota_fetches:
  "fetches (snd (fetch_loop ex_cfg quota_env first_four []
          ((snd (get_status ex_cfg quota_env ex_world))\<lparr>files := (\<lambda>p. None)\<rparr>)))
     = [''2023-01-01'']"
  by code_simp

text \<open>
  The first historical request gets 429: the run returns 1 after that one request and the
  files are untouched.
\<close>

theorem nothing_fetched_nothing_written_witness:
  "fst (main ex_cfg quota_env ex_world) = Returned 1
   \<and> files (snd (main ex_cfg quota_env ex_world)) = files ex_world
   \<and> fetches (snd (main ex_cfg quota_env ex_world)) = [''2023-01-01'']"
proof -
  let ?wl = "(snd (get_status ex_cfg quota_env ex_world))\<lparr>files := (\<lambda>p. None)\<rparr>"
  have sm: "still_missing ex_cfg quota_env 2023 1 first_four (files ?wl) = first_four"
    by (simp add: still_first_four empty_read)
  have fl: "fetch_loop ex_cfg quota_env
        (still_missing ex_cfg quota_env 2023 1 first_four (files ?wl)) [] ?wl
      = ((Some RuntimeError429, []), snd (fetch_loop ex_cfg quota_env first_four [] ?wl))"
    unfolding sm using quota_fetch_fails by (simp add: prod_eq_iff)
  have "others quota_env (files ex_world) = files ex_world"
    by (simp add: quota_env_def ok_env_def ex_env_def)
  then show ?thesis
    using nothing_fetched_nothing_written [OF quota_reaches_lock fl] quota_fetches by simp
qed




lemma fold_update_keys:
  "fst ` set (fold (\<lambda>c n. AList.update c (g c) n) cs init) = fst ` set init \<union> set cs"
  by (induction cs arbitrary: init) (auto simp: dom_update)

lemma normalize_row_keys:
  "fst ` set (normalize_row cfg e r d) = {''date''} \<union> set (CURRENCIES cfg)"
  by (simp add: normalize_row_def fold_update_keys)















section \<open>The month locator: proofs\<close>

lemma next_month_same_year:
  "m < 12 \<Longrightarrow>
   (\<not> earlier (y', m') (y, m)) = ((y', m') = (y, m) \<or> \<not> earlier (y', m') (y, m + 1))"
  unfolding earlier_def fst_conv snd_conv prod.inject by linarith

lemma next_month_new_year:
  "1 \<le> m' \<Longrightarrow> m' \<le> 12 \<Longrightarrow>
   (\<not> earlier (y', m') (y, 12)) = ((y', m') = (y, 12) \<or> \<not> earlier (y', m') (y + 1, 1))"
  unfolding earlier_def fst_conv snd_conv prod.inject by linarith

lemma months_loop_char:
  assumes "1 \<le> m" "m \<le> 12"
  shows "\<exists>ms. months_loop td y m acc = Some (acc @ ms)
      \<and> sorted_wrt earlier ms
      \<and> set ms = {(y', m'). 1 \<le> m' \<and> m' \<le> 12 \<and> \<not> earlier (y', m') (y, m)
                             \<and> \<not> earlier td (y', m')}"
  using assms
proof (induction "nat (12 * (fst td - y) + 12 - m + 1)" arbitrary: y m acc rule: less_induct)
  case less
  show ?case
  proof (cases "y < fst td \<or> (y = fst td \<and> m \<le> snd td)")
    case False
    have r: "months_loop td y m acc = Some acc"
      by (subst months_loop.simps, subst if_not_P [OF False]) simp
    have "\<not> (\<not> earlier (y', m') (y, m) \<and> \<not> earlier td (y', m'))" for y' m'
      using False unfolding earlier_def fst_conv snd_conv by linarith
    then have "{(y', m'). 1 \<le> m' \<and> m' \<le> 12 \<and> \<not> earlier (y', m') (y, m)
                             \<and> \<not> earlier td (y', m')} = {}"
      by blast
    then show ?thesis
      by (intro exI [of _ "[]"]) (simp add: r)
  next
    case True
    define yn where "yn = (if m = 12 then y + 1 else y)"
    define mn where "mn = (if m = 12 then 1 else m + 1)"
    have r: "months_loop td y m acc = months_loop td yn mn (acc @ [(y, m)])"
      by (subst months_loop.simps, subst if_P [OF True]) (simp add: yn_def mn_def)
    have mn: "1 \<le> mn" "mn \<le> 12" using less.prems by (simp_all add: mn_def)
    have dec: "nat (12 * (fst td - yn) + 12 - mn + 1) < nat (12 * (fst td - y) + 12 - m + 1)"
    proof (cases "m = 12")
      case True
      then show ?thesis using \<open>y < fst td \<or> (y = fst td \<and> m \<le> snd td)\<close>
        by (simp add: yn_def mn_def) linarith
    next
      case False
      then show ?thesis using \<open>y < fst td \<or> (y = fst td \<and> m \<le> snd td)\<close> less.prems
        by (simp add: yn_def mn_def) linarith
    qed
    from less.hyps [OF dec mn, of "acc @ [(y, m)]"]
    obtain ms where ms: "months_loop td yn mn (acc @ [(y, m)]) = Some ((acc @ [(y, m)]) @ ms)"
      "sorted_wrt earlier ms"
      "set ms = {(y', m'). 1 \<le> m' \<and> m' \<le> 12 \<and> \<not> earlier (y', m') (yn, mn)
                             \<and> \<not> earlier td (y', m')}"
      by blast
    have step: "(\<not> earlier (y', m') (y, m)) = ((y', m') = (y, m) \<or> \<not> earlier (y', m') (yn, mn))"
      if "1 \<le> m'" "m' \<le> 12" for y' m'
    proof (cases "m = 12")
      case True
      then show ?thesis using next_month_new_year [OF that, of y' y] by (simp add: yn_def mn_def)
    next
      case False
      then have "m < 12" using less.prems by simp
      then show ?thesis
        using next_month_same_year [of m y' m' y] False by (simp add: yn_def mn_def)
    qed
    have here: "\<not> earlier td (y, m)"
      using True unfolding earlier_def fst_conv snd_conv by linarith
    have nxt: "earlier (y, m) (yn, mn)"
      unfolding earlier_def fst_conv snd_conv yn_def mn_def by simp
    have after: "earlier (y, m) p" if "p \<in> set ms" for p
    proof -
      obtain y' m' where p: "p = (y', m')" by (cases p)
      have "\<not> earlier (y', m') (yn, mn)" using that ms(3) p by simp
      then show ?thesis
        using nxt unfolding p earlier_def fst_conv snd_conv by linarith
    qed
    have set_eq: "{(y', m'). 1 \<le> m' \<and> m' \<le> 12 \<and> \<not> earlier (y', m') (y, m)
                             \<and> \<not> earlier td (y', m')}
        = insert (y, m) (set ms)"
    proof (rule set_eqI)
      fix p :: "int \<times> int"
      obtain y' m' where p: "p = (y', m')" by (cases p)
      show "(p \<in> {(y', m'). 1 \<le> m' \<and> m' \<le> 12 \<and> \<not> earlier (y', m') (y, m)
                             \<and> \<not> earlier td (y', m')}) = (p \<in> insert (y, m) (set ms))"
        unfolding p ms(3) using step [of m' y'] here less.prems by auto
    qed
    show ?thesis
      apply (rule exI [of _ "(y, m) # ms"])
      using ms(1) ms(2) after set_eq by (simp add: r)
  qed
qed

lemma collect_all_Inr:
  "(\<forall>x \<in> set xs. \<exists>v. f x = Inr v) \<Longrightarrow>
     \<exists>vs. collect (map f xs) = Inr vs \<and> length vs = length xs"
proof (induction xs)
  case Nil
  then show ?case by simp
next
  case (Cons x xs)
  then obtain v vs where "f x = Inr v" "collect (map f xs) = Inr vs" "length vs = length xs"
    by auto
  then show ?case by simp
qed

lemma dates_in_month_ok:
  assumes "1 \<le> y" "y \<le> 9999" "1 \<le> m" "m \<le> 12"
  shows "\<exists>all_dates. dates_in_month y m = Inr all_dates \<and> all_dates \<noteq> []"
proof -
  define nd where "nd = mdays m + (if m = 2 \<and> isleap y then 1 else 0)"
  have mr: "monthrange_days y m = Inr nd"
    using assms by (simp add: monthrange_days_def nd_def)
  have nd: "28 \<le> nd" by (simp add: nd_def mdays_def)
  have "\<exists>v. date_isoformat y m d = Inr v" if "d \<in> set [1..nd]" for d
    using that assms mr by (simp add: date_isoformat_def)
  then obtain vs where vs: "collect (map (date_isoformat y m) [1..nd]) = Inr vs"
    "length vs = length [1..nd]"
    using collect_all_Inr [of "[1..nd]" "date_isoformat y m"] by blast
  have "vs \<noteq> []" using vs(2) nd by auto
  then show ?thesis using vs(1) mr by (simp add: dates_in_month_def)
qed

lemma locate_find:
  assumes "\<forall>ym \<in> set ms. \<exists>all_dates. dates_in_month (fst ym) (snd ym) = Inr all_dates"
  shows "case List.find (gap cfg e s) ms of
           None \<Rightarrow> locate cfg e s ms = Inr None
         | Some ym \<Rightarrow>
             \<exists>all_dates. dates_in_month (fst ym) (snd ym) = Inr all_dates
               \<and> locate cfg e s ms
                   = Inr (Some (fst ym, snd ym,
                       missing_in (read_csv_rows cfg e s (csv_path_for (fst ym) (snd ym))) all_dates,
                       read_csv_rows cfg e s (csv_path_for (fst ym) (snd ym))))"
  using assms
proof (induction ms)
  case Nil
  then show ?case by simp
next
  case (Cons ym ms)
  obtain y m where ym: "ym = (y, m)" by (cases ym)
  obtain all_dates where d: "dates_in_month y m = Inr all_dates"
    using Cons.prems ym by auto
  show ?case
  proof (cases "gap cfg e s ym")
    case True
    then show ?thesis using d ym by (simp add: gap_def Let_def)
  next
    case False
    then have eq: "locate cfg e s (ym # ms) = locate cfg e s ms"
      using d ym by (simp add: gap_def Let_def)
    have "\<forall>ym \<in> set ms. \<exists>all_dates. dates_in_month (fst ym) (snd ym) = Inr all_dates"
      using Cons.prems by simp
    from Cons.IH [OF this] show ?thesis
      using False by (auto simp: eq split: option.splits)
  qed
qed

lemma months_since_char:
  "\<exists>ms. months_since e year_start = Some ms
      \<and> sorted_wrt earlier ms
      \<and> set ms = {(y, m). year_start \<le> y \<and> 1 \<le> m \<and> m \<le> 12 \<and> \<not> earlier (today e) (y, m)}"
proof -
  obtain ms where ms: "months_loop (today e) year_start 1 [] = Some ([] @ ms)"
    "sorted_wrt earlier ms"
    "set ms = {(y', m'). 1 \<le> m' \<and> m' \<le> 12 \<and> \<not> earlier (y', m') (year_start, 1)
                             \<and> \<not> earlier (today e) (y', m')}"
    using months_loop_char [of 1 "today e" year_start "[]"] by auto
  have "(1 \<le> m' \<and> m' \<le> 12 \<and> \<not> earlier (y', m') (year_start, 1) \<and> \<not> earlier (today e) (y', m'))
      = (year_start \<le> y' \<and> 1 \<le> m' \<and> m' \<le> 12 \<and> \<not> earlier (today e) (y', m'))" for y' m'
    unfolding earlier_def fst_conv snd_conv by linarith
  then have "set ms = {(y, m). year_start \<le> y \<and> 1 \<le> m \<and> m \<le> 12 \<and> \<not> earlier (today e) (y, m)}"
    using ms(3) by simp
  then show ?thesis using ms(1) ms(2) by (simp add: months_since_def)
qed

lemma earlier_asym: "earlier a b \<Longrightarrow> \<not> earlier b a" and earlier_irrefl: "\<not> earlier a a"
  unfolding earlier_def by linarith+

lemma sorted_wrt_before:
  assumes srt: "sorted_wrt earlier ms" and i: "i < length ms"
      and mem: "ym \<in> set ms" and e: "earlier ym (ms ! i)"
  shows "\<exists>j < i. ms ! j = ym"
proof -
  obtain j where j: "j < length ms" "ms ! j = ym"
    using mem unfolding in_set_conv_nth by blast
  have "\<not> i < j"
  proof
    assume "i < j"
    then have "earlier (ms ! i) (ms ! j)" using srt j(1) by (simp add: sorted_wrt_nth_less)
    then show False using e j(2) earlier_asym by blast
  qed
  moreover have "i \<noteq> j"
  proof
    assume "i = j"
    then have "earlier ym ym" using e j(2) by simp
    then show False using earlier_irrefl by blast
  qed
  ultimately show ?thesis using j(2) by (intro exI [of _ j]) simp
qed

text \<open>
  Claim C4, as amended. For a start year from 1 and a current year up to 9999 (the years
  Python's dates have), \<^verbatim>\<open>months_since\<close> returns, and yields exactly the months from
  January of the start year to the current month, in strictly ascending order. The scan
  over them does not raise. It selects nothing exactly when no month yielded has a gap,
  and then a run that has its status returns 0 in the state the status request left
  (no historical request, the files untouched). Otherwise it selects a month that has a
  gap such that no earlier month yielded has one, with that month's records as read and
  its missing days: the earliest month with a missing day, whether or not any of its days
  is recorded.
\<close>

theorem month_locator:
  assumes sy: "1 \<le> START_YEAR cfg" and ty: "fst (today e) \<le> 9999"
  shows "\<exists>ms r. months_since e (START_YEAR cfg) = Some ms
     \<and> sorted_wrt earlier ms
     \<and> set ms = {(y, m). START_YEAR cfg \<le> y \<and> 1 \<le> m \<and> m \<le> 12 \<and> \<not> earlier (today e) (y, m)}
     \<and> locate cfg e (files w0) ms = Inr r
     \<and> (r = None \<longrightarrow> (\<forall>ym \<in> set ms. \<not> gap cfg e (files w0) ym))
     \<and> (\<forall>y m missing existing. r = Some (y, m, missing, existing) \<longrightarrow>
           (y, m) \<in> set ms \<and> gap cfg e (files w0) (y, m)
           \<and> (\<forall>ym \<in> set ms. earlier ym (y, m) \<longrightarrow> \<not> gap cfg e (files w0) ym)
           \<and> existing = read_csv_rows cfg e (files w0) (csv_path_for y m)
           \<and> (\<exists>all_dates. dates_in_month y m = Inr all_dates
                 \<and> missing = missing_in existing all_dates))
     \<and> (r = None \<longrightarrow>
           (\<forall>status w1. get_status cfg e w0 = (Inr (Some status), w1) \<longrightarrow>
              main cfg e w0 = (Returned 0, w1) \<and> files w1 = files w0 \<and> fetches w1 = fetches w0))"
proof -
  obtain ms where ms: "months_since e (START_YEAR cfg) = Some ms" "sorted_wrt earlier ms"
    "set ms = {(y, m). START_YEAR cfg \<le> y \<and> 1 \<le> m \<and> m \<le> 12 \<and> \<not> earlier (today e) (y, m)}"
    using months_since_char [of e "START_YEAR cfg"] by blast
  have ok: "\<forall>ym \<in> set ms. \<exists>all_dates. dates_in_month (fst ym) (snd ym) = Inr all_dates"
  proof
    fix ym assume "ym \<in> set ms"
    then have a: "START_YEAR cfg \<le> fst ym" "1 \<le> snd ym" "snd ym \<le> 12"
      "\<not> earlier (today e) ym"
      using ms(3) by auto
    then have "fst ym \<le> fst (today e)" unfolding earlier_def by linarith
    then show "\<exists>all_dates. dates_in_month (fst ym) (snd ym) = Inr all_dates"
      using dates_in_month_ok [of "fst ym" "snd ym"] a sy ty by force
  qed
  note lf = locate_find [OF ok, of cfg e "files w0"]
  show ?thesis
  proof (cases "List.find (gap cfg e (files w0)) ms")
    case None
    then have l: "locate cfg e (files w0) ms = Inr None" using lf by simp
    have ng: "\<forall>ym \<in> set ms. \<not> gap cfg e (files w0) ym"
      using None unfolding find_None_iff by blast
    have m: "main cfg e w0 = (Returned 0, w1) \<and> files w1 = files w0 \<and> fetches w1 = fetches w0"
      if st: "get_status cfg e w0 = (Inr (Some status), w1)" for status w1
    proof -
      have f: "files w1 = files w0 \<and> fetches w1 = fetches w0"
        using get_status_frame [OF st] .
      then have "locate cfg e (files w1) ms = Inr None" using l by simp
      then have "main cfg e w0 = (Returned 0, w1)"
        using st ms(1) by (simp add: main_def)
      then show ?thesis using f by simp
    qed
    show ?thesis
      apply (rule exI [of _ ms], rule exI [of _ None])
      using ms(1) ms(2) ms(3) l ng m by blast
  next
    case (Some ym)
    then obtain all_dates where ad: "dates_in_month (fst ym) (snd ym) = Inr all_dates"
      and l: "locate cfg e (files w0) ms
       = Inr (Some (fst ym, snd ym,
           missing_in (read_csv_rows cfg e (files w0) (csv_path_for (fst ym) (snd ym))) all_dates,
           read_csv_rows cfg e (files w0) (csv_path_for (fst ym) (snd ym))))"
      using lf by auto
    obtain i where i: "i < length ms" "gap cfg e (files w0) (ms ! i)" "ym = ms ! i"
      "\<forall>j < i. \<not> gap cfg e (files w0) (ms ! j)"
      using Some unfolding find_Some_iff by blast
    have mem: "(fst ym, snd ym) \<in> set ms" using i(1) i(3) by simp
    have g: "gap cfg e (files w0) (fst ym, snd ym)" using i(2) i(3) by simp
    have first: "\<forall>ym' \<in> set ms. earlier ym' (fst ym, snd ym) \<longrightarrow> \<not> gap cfg e (files w0) ym'"
    proof (intro ballI impI)
      fix ym' assume "ym' \<in> set ms" "earlier ym' (fst ym, snd ym)"
      then obtain j where "j < i" "ms ! j = ym'"
        using sorted_wrt_before [OF ms(2) i(1), of ym'] i(3) by auto
      then show "\<not> gap cfg e (files w0) ym'" using i(4) by auto
    qed
    define r where "r = Some (fst ym, snd ym,
           missing_in (read_csv_rows cfg e (files w0) (csv_path_for (fst ym) (snd ym))) all_dates,
           read_csv_rows cfg e (files w0) (csv_path_for (fst ym) (snd ym)))"
    have l': "locate cfg e (files w0) ms = Inr r" using l by (simp add: r_def)
    have nn: "r \<noteq> None" by (simp add: r_def)
    have sel: "\<forall>y m missing existing. r = Some (y, m, missing, existing) \<longrightarrow>
           (y, m) \<in> set ms \<and> gap cfg e (files w0) (y, m)
           \<and> (\<forall>ym \<in> set ms. earlier ym (y, m) \<longrightarrow> \<not> gap cfg e (files w0) ym)
           \<and> existing = read_csv_rows cfg e (files w0) (csv_path_for y m)
           \<and> (\<exists>all_dates. dates_in_month y m = Inr all_dates
                 \<and> missing = missing_in existing all_dates)"
    proof (intro allI impI)
      fix y m missing existing assume "r = Some (y, m, missing, existing)"
      then have eq: "y = fst ym" "m = snd ym"
        "missing = missing_in (read_csv_rows cfg e (files w0) (csv_path_for (fst ym) (snd ym))) all_dates"
        "existing = read_csv_rows cfg e (files w0) (csv_path_for (fst ym) (snd ym))"
        by (auto simp: r_def)
      show "(y, m) \<in> set ms \<and> gap cfg e (files w0) (y, m)
           \<and> (\<forall>ym \<in> set ms. earlier ym (y, m) \<longrightarrow> \<not> gap cfg e (files w0) ym)
           \<and> existing = read_csv_rows cfg e (files w0) (csv_path_for y m)
           \<and> (\<exists>all_dates. dates_in_month y m = Inr all_dates
                 \<and> missing = missing_in existing all_dates)"
        unfolding eq using mem g first ad by blast
    qed
    show ?thesis
      apply (rule exI [of _ ms], rule exI [of _ r])
      using ms(1) ms(2) ms(3) l' nn sel by blast
  qed
qed

lemma dates_feb: "dates_in_month 2023 2 = Inr feb_dates"
  by (simp add: dates_in_month_def monthrange_days_def mdays_def isleap_def date_isoformat_def
      zfill4_def zfill2_def digit_def upto.simps feb_dates_def)

lemma months_2023_2: "months_loop (2023, 2) 2023 1 [] = Some [(2023, 1), (2023, 2)]"
  by code_simp

lemma feb_read:
  "read_csv_rows ex_cfg feb_env feb_fs (csv_path_for 2023 2)
     = [(''2023-02-01'', [(''date'', Str ''2023-02-01''), (''USD'', Num (Finite 1)),
                          (''EUR'', Num (Finite (3 / 2)))])]"
  by code_simp

lemma jan_read: "read_csv_rows ex_cfg feb_env feb_fs (csv_path_for 2023 1) = []"
  by (simp add: read_csv_rows_def feb_fs_def csv_path_for_def)

text \<open>
  With an empty archive in March 2023, the months enumerated are January to March of 2023
  and January, the first with a gap, is selected.
\<close>

theorem month_locator_witness:
  "1 \<le> START_YEAR ex_cfg \<and> fst (today ex_env) \<le> 9999
   \<and> months_since ex_env (START_YEAR ex_cfg) = Some [(2023, 1), (2023, 2), (2023, 3)]
   \<and> target_month (locate ex_cfg ex_env (files ex_world) [(2023, 1), (2023, 2), (2023, 3)])
        = Some (2023, 1)
   \<and> gap ex_cfg ex_env (files ex_world) (2023, 1)"
proof -
  have sy: "1 \<le> START_YEAR ex_cfg" by (simp add: ex_cfg_def)
  have ty: "fst (today ex_env) \<le> 9999" by (simp add: ex_env_def)
  have mo: "months_since ex_env (START_YEAR ex_cfg) = Some [(2023, 1), (2023, 2), (2023, 3)]"
    using months_2023_3 by (simp add: months_since_def ex_env_def ex_cfg_def)
  have rd: "read_csv_rows ex_cfg ex_env (files ex_world) (csv_path_for 2023 1) = []"
    by (simp add: read_csv_rows_def ex_world_def)
  have lo: "locate ex_cfg ex_env (files ex_world) [(2023, 1), (2023, 2), (2023, 3)]
      = Inr (Some (2023, 1, jan_dates, []))"
    using locate_first [OF dates_jan, of ex_cfg ex_env "files ex_world"] rd
    by (simp add: missing_in_def jan_dates_def)
  obtain ms r where t: "months_since ex_env (START_YEAR ex_cfg) = Some ms"
    "locate ex_cfg ex_env (files ex_world) ms = Inr r"
    "\<forall>y m missing existing. r = Some (y, m, missing, existing) \<longrightarrow>
           (y, m) \<in> set ms \<and> gap ex_cfg ex_env (files ex_world) (y, m)
           \<and> (\<forall>ym \<in> set ms. earlier ym (y, m) \<longrightarrow> \<not> gap ex_cfg ex_env (files ex_world) ym)
           \<and> existing = read_csv_rows ex_cfg ex_env (files ex_world) (csv_path_for y m)
           \<and> (\<exists>all_dates. dates_in_month y m = Inr all_dates
                 \<and> missing = missing_in existing all_dates)"
    using month_locator [OF sy ty, of ex_world] by blast
  have "ms = [(2023, 1), (2023, 2), (2023, 3)]" using t(1) mo by simp
  then have "r = Some (2023, 1, jan_dates, [])" using t(2) lo by simp
  then have "gap ex_cfg ex_env (files ex_world) (2023, 1)" using t(3) by blast
  then show ?thesis using sy ty mo lo by (simp add: target_month_def)
qed

text \<open>
  The last sentence of the claim as stated fails: February is the earliest month that has
  persisted records and a missing date, yet January, which has no file at all, is the
  month selected.
\<close>

theorem month_locator_counterexample:
  "months_since feb_env (START_YEAR ex_cfg) = Some [(2023, 1), (2023, 2)]
   \<and> target_month (locate ex_cfg feb_env feb_fs [(2023, 1), (2023, 2)]) = Some (2023, 1)
   \<and> read_csv_rows ex_cfg feb_env feb_fs (csv_path_for 2023 1) = []
   \<and> map fst (read_csv_rows ex_cfg feb_env feb_fs (csv_path_for 2023 2)) = [''2023-02-01'']
   \<and> gap ex_cfg feb_env feb_fs (2023, 2)"
proof -
  have mo: "months_since feb_env (START_YEAR ex_cfg) = Some [(2023, 1), (2023, 2)]"
    using months_2023_2 by (simp add: months_since_def feb_env_def ex_cfg_def)
  have lo: "locate ex_cfg feb_env feb_fs [(2023, 1), (2023, 2)]
      = Inr (Some (2023, 1, jan_dates, []))"
    using locate_first [OF dates_jan, of ex_cfg feb_env feb_fs] jan_read
    by (simp add: missing_in_def jan_dates_def)
  have g: "gap ex_cfg feb_env feb_fs (2023, 2)"
    by (simp add: gap_def dates_feb feb_read missing_in_def feb_dates_def)
  show ?thesis using mo lo jan_read feb_read g by (simp add: target_month_def)
qed

section \<open>The budget in the run: proofs\<close>

lemma fetch_loop_fetches:
  "fetch_loop cfg e dts acc w = (r, w') \<Longrightarrow>
     \<exists>ds. fetches w' = fetches w @ ds \<and> set ds \<subseteq> set dts"
proof (induction dts arbitrary: acc w)
  case Nil
  then show ?case by simp
next
  case (Cons dt dts)
  obtain r0 w1 where gh: "get_historical_for_date cfg e dt w = (r0, w1)"
    by (cases "get_historical_for_date cfg e dt w")
  obtain n where n: "fetches w1 = fetches w @ replicate n dt"
    using get_historical_frame [OF gh] by blast
  show ?case
  proof (cases r0)
    case (Inl x)
    then have "w' = w1" using Cons.prems gh by simp
    then show ?thesis using n by (intro exI [of _ "replicate n dt"]) auto
  next
    case (Inr row)
    then have "fetch_loop cfg e dts (AList.update dt row acc) w1 = (r, w')"
      using Cons.prems gh by simp
    from Cons.IH [OF this] obtain ds where
      ds: "fetches w' = fetches w1 @ ds" "set ds \<subseteq> set dts" by blast
    show ?thesis
      using ds n by (intro exI [of _ "replicate n dt @ ds"]) auto
  qed
qed

lemma write_archive_fetches: "fetches (snd (write_archive cfg e p rows w)) = fetches w"
  by (simp add: write_archive_def fetches_def split: prod.splits)

lemma locked_section_fetches:
  "\<exists>ds. fetches (snd (locked_section cfg e year month planned w)) = fetches w @ ds
      \<and> set ds \<subseteq> set planned"
proof (cases "dates_in_month year month")
  case (Inl x)
  then show ?thesis by (simp add: locked_section_def)
next
  case (Inr all_dates)
  define p where "p = csv_path_for year month"
  define existing_rows where "existing_rows = read_csv_rows cfg e (files w) p"
  define md where "md = sort (filter (\<lambda>d. d \<in> set (missing_in existing_rows all_dates)) planned)"
  have sub: "set md \<subseteq> set planned" by (auto simp: md_def)
  obtain r rows_fetched w' where fl: "fetch_loop cfg e md [] w = ((r, rows_fetched), w')"
    by (cases "fetch_loop cfg e md [] w") auto
  obtain ds where ds: "fetches w' = fetches w @ ds" "set ds \<subseteq> set md"
    using fetch_loop_fetches [OF fl] by blast
  obtain r2 w2 where wa: "write_archive cfg e p (dict_update existing_rows rows_fetched) w'
      = (r2, w2)"
    by (cases "write_archive cfg e p (dict_update existing_rows rows_fetched) w'")
  have f2: "fetches w2 = fetches w'"
    using write_archive_fetches [of cfg e p "dict_update existing_rows rows_fetched" w'] wa
    by simp
  have eq: "locked_section cfg e year month planned w =
     (if md = [] then (Returned 0, w)
      else case r of
             Some x \<Rightarrow> if rows_fetched \<noteq> [] then (Returned 1, w2) else (Returned 1, w')
           | None \<Rightarrow> (case r2 of Some x \<Rightarrow> (Returned 1, w2) | None \<Rightarrow> (Returned 0, w2)))"
    unfolding locked_section_def Let_def Inr sum.case
      p_def [symmetric] existing_rows_def [symmetric] md_def [symmetric]
    by (cases r; cases r2) (simp_all add: fl wa)
  have "fetches (snd (locked_section cfg e year month planned w)) = fetches w
      \<or> fetches (snd (locked_section cfg e year month planned w)) = fetches w @ ds"
    unfolding eq using ds(1) f2 by (simp split: option.splits)
  then show ?thesis
  proof
    assume "fetches (snd (locked_section cfg e year month planned w)) = fetches w"
    then show ?thesis by (intro exI [of _ "[]"]) simp
  next
    assume "fetches (snd (locked_section cfg e year month planned w)) = fetches w @ ds"
    then show ?thesis using ds(2) sub by (intro exI [of _ ds]) auto
  qed
qed

lemma is_skip_cases: "is_skip d \<longleftrightarrow> d = BelowBuffer \<or> d = NoneAvailable \<or> d = NotEnough"
  by (cases d) (simp_all add: is_skip_def)

lemma main_budget:
  assumes gs: "get_status cfg e w0 = (Inr (Some status), w1)"
      and ms: "months_since e (START_YEAR cfg) = Some ms"
      and lc: "locate cfg e (files w1) ms = Inr (Some (year, month, missing, existing))"
  shows "is_skip (budget cfg (remaining status) missing) \<longrightarrow>
           main cfg e w0 = (Returned 0, w1) \<and> fetches w1 = fetches w0 \<and> files w1 = files w0"
    and "\<forall>ds. budget cfg (remaining status) missing = Fetch ds \<longrightarrow>
           main cfg e w0 =
             (if lock_free e
              then locked_section cfg e year month ds (w1\<lparr>files := others e (files w1)\<rparr>)
              else (Returned 1, w1))
           \<and> (\<exists>sent_ds. fetches (snd (main cfg e w0)) = fetches w0 @ sent_ds
                  \<and> set sent_ds \<subseteq> set ds)"
proof -
  have fr: "files w1 = files w0" "fetches w1 = fetches w0"
    using get_status_frame [OF gs] by simp_all
  show "is_skip (budget cfg (remaining status) missing) \<longrightarrow>
           main cfg e w0 = (Returned 0, w1) \<and> fetches w1 = fetches w0 \<and> files w1 = files w0"
  proof
    assume "is_skip (budget cfg (remaining status) missing)"
    then have "main cfg e w0 = (Returned 0, w1)"
      by (auto simp: is_skip_cases main_def gs ms lc)
    then show "main cfg e w0 = (Returned 0, w1) \<and> fetches w1 = fetches w0
        \<and> files w1 = files w0"
      using fr by simp
  qed
  show "\<forall>ds. budget cfg (remaining status) missing = Fetch ds \<longrightarrow>
           main cfg e w0 =
             (if lock_free e
              then locked_section cfg e year month ds (w1\<lparr>files := others e (files w1)\<rparr>)
              else (Returned 1, w1))
           \<and> (\<exists>sent_ds. fetches (snd (main cfg e w0)) = fetches w0 @ sent_ds
                  \<and> set sent_ds \<subseteq> set ds)"
  proof (intro allI impI)
    fix ds assume b: "budget cfg (remaining status) missing = Fetch ds"
    have m: "main cfg e w0 =
             (if lock_free e
              then locked_section cfg e year month ds (w1\<lparr>files := others e (files w1)\<rparr>)
              else (Returned 1, w1))"
      by (simp add: main_def gs ms lc b)
    have fw: "fetches (w1\<lparr>files := others e (files w1)\<rparr>) = fetches w0"
      using fr(2) by (simp add: fetches_def)
    have "\<exists>sent_ds. fetches (snd (main cfg e w0)) = fetches w0 @ sent_ds
                  \<and> set sent_ds \<subseteq> set ds"
    proof (cases "lock_free e")
      case True
      then show ?thesis
        using locked_section_fetches [of cfg e year month ds "w1\<lparr>files := others e (files w1)\<rparr>"]
        by (simp add: m fw)
    next
      case False
      then show ?thesis using fr(2) by (intro exI [of _ "[]"]) (simp add: m)
    qed
    then show "main cfg e w0 =
             (if lock_free e
              then locked_section cfg e year month ds (w1\<lparr>files := others e (files w1)\<rparr>)
              else (Returned 1, w1))
           \<and> (\<exists>sent_ds. fetches (snd (main cfg e w0)) = fetches w0 @ sent_ds
                  \<and> set sent_ds \<subseteq> set ds)"
      using m by blast
  qed
qed

text \<open>
  Claim C1. The budgeting step, on a status snapshot with remaining quota \<open>r\<close>: it skips
  when \<open>r\<close> is below the safety buffer or when \<open>r\<close> minus the buffer is not positive; it
  skips when the available amount is less than the number of missing dates and partial
  months are not allowed; otherwise it proceeds with \<open>N\<close> dates, \<open>N\<close> the number of missing
  dates when enough is available and the available amount otherwise, and these are the
  \<open>N\<close> earliest missing dates in ascending order. In a run whose status request yields
  that snapshot and whose scan finds a month with the missing dates, a skip is the end of
  the run: \<^verbatim>\<open>main\<close> returns 0 in the state the status request left, with no historical
  request sent and no file changed. Proceeding with the dates \<open>ds\<close> is the run of the
  locked section on \<open>ds\<close>, or the return of 1 when the lock is not obtained, and every
  historical request the run sends is for one of \<open>ds\<close>.
\<close>

theorem budget_decides:
  fixes cfg :: config and r :: int and missing :: "string list"
  defines "b \<equiv> SAFETY_BUFFER cfg"
      and "n \<equiv> int (length missing)"
      and "d \<equiv> budget cfg (Some r) missing"
  shows "(r < b \<or> r - b \<le> 0 \<longrightarrow> is_skip d)
       \<and> (r - b < n \<and> \<not> ALLOW_PARTIAL_MONTH cfg \<longrightarrow> is_skip d)
       \<and> (0 < r - b \<and> n \<le> r - b \<longrightarrow> d = Fetch (sort missing))
       \<and> (0 < r - b \<and> r - b < n \<and> ALLOW_PARTIAL_MONTH cfg \<longrightarrow>
            d = Fetch (take (nat (r - b)) (sort missing)) \<and>
            (\<forall>ds. d = Fetch ds \<longrightarrow> int (length ds) = r - b))
       \<and> (\<forall>ds. d = Fetch ds \<longrightarrow>
            sorted ds \<and> ds = take (length ds) (sort missing) \<and>
            (\<forall>x \<in> set ds. \<forall>y \<in> set (drop (length ds) (sort missing)). x \<le> y) \<and>
            mset ds + mset (drop (length ds) (sort missing)) = mset missing)
       \<and> (\<forall>e w0 status w1 ms year month existing.
            get_status cfg e w0 = (Inr (Some status), w1) \<and> remaining status = Some r
            \<and> months_since e (START_YEAR cfg) = Some ms
            \<and> locate cfg e (files w1) ms = Inr (Some (year, month, missing, existing)) \<longrightarrow>
            (is_skip d \<longrightarrow>
               main cfg e w0 = (Returned 0, w1) \<and> fetches w1 = fetches w0
               \<and> files w1 = files w0)
            \<and> (\<forall>ds. d = Fetch ds \<longrightarrow>
                 main cfg e w0 =
                   (if lock_free e
                    then locked_section cfg e year month ds
                           (w1\<lparr>files := others e (files w1)\<rparr>)
                    else (Returned 1, w1))
                 \<and> (\<exists>sent_ds. fetches (snd (main cfg e w0)) = fetches w0 @ sent_ds
                        \<and> set sent_ds \<subseteq> set ds)))"
proof -
  have skip1: "r < b \<or> r - b \<le> 0 \<longrightarrow> is_skip d"
    by (auto simp: d_def b_def budget_def is_skip_def Let_def)
  have skip2: "r - b < n \<and> \<not> ALLOW_PARTIAL_MONTH cfg \<longrightarrow> is_skip d"
    by (auto simp: d_def b_def n_def budget_def is_skip_def Let_def)
  have full: "0 < r - b \<and> n \<le> r - b \<longrightarrow> d = Fetch (sort missing)"
    by (auto simp: d_def b_def n_def budget_def Let_def)
  have part: "0 < r - b \<and> r - b < n \<and> ALLOW_PARTIAL_MONTH cfg \<longrightarrow>
            d = Fetch (take (nat (r - b)) (sort missing)) \<and>
            (\<forall>ds. d = Fetch ds \<longrightarrow> int (length ds) = r - b)"
    by (auto simp: d_def b_def n_def budget_def Let_def)
  have early: "\<forall>ds. d = Fetch ds \<longrightarrow>
            sorted ds \<and> ds = take (length ds) (sort missing) \<and>
            (\<forall>x \<in> set ds. \<forall>y \<in> set (drop (length ds) (sort missing)). x \<le> y) \<and>
            mset ds + mset (drop (length ds) (sort missing)) = mset missing"
  proof (intro allI impI)
    fix ds assume h: "d = Fetch ds"
    have "\<exists>k. ds = take k (sort missing)"
      using h
      by (auto simp: d_def budget_def Let_def split: if_splits intro: exI [of _ "length missing"])
    then obtain k where k: "ds = take k (sort missing)" ..
    have len: "ds = take (length ds) (sort missing)"
      by (simp add: k min_def)
    have srt: "sorted ds" by (simp add: k sorted_wrt_take)
    have sep: "\<forall>x \<in> set ds. \<forall>y \<in> set (drop (length ds) (sort missing)). x \<le> y"
      using take_sort_earliest [of _ "length ds" missing] len by metis
    have "mset (take (length ds) (sort missing)) + mset (drop (length ds) (sort missing))
          = mset (sort missing)"
      by (metis append_take_drop_id mset_append)
    then have ms: "mset ds + mset (drop (length ds) (sort missing)) = mset missing"
      using len by simp
    show "sorted ds \<and> ds = take (length ds) (sort missing) \<and>
            (\<forall>x \<in> set ds. \<forall>y \<in> set (drop (length ds) (sort missing)). x \<le> y) \<and>
            mset ds + mset (drop (length ds) (sort missing)) = mset missing"
      using srt len sep ms by blast
  qed
  have run: "\<forall>e w0 status w1 ms year month existing.
            get_status cfg e w0 = (Inr (Some status), w1) \<and> remaining status = Some r
            \<and> months_since e (START_YEAR cfg) = Some ms
            \<and> locate cfg e (files w1) ms = Inr (Some (year, month, missing, existing)) \<longrightarrow>
            (is_skip d \<longrightarrow>
               main cfg e w0 = (Returned 0, w1) \<and> fetches w1 = fetches w0
               \<and> files w1 = files w0)
            \<and> (\<forall>ds. d = Fetch ds \<longrightarrow>
                 main cfg e w0 =
                   (if lock_free e
                    then locked_section cfg e year month ds
                           (w1\<lparr>files := others e (files w1)\<rparr>)
                    else (Returned 1, w1))
                 \<and> (\<exists>sent_ds. fetches (snd (main cfg e w0)) = fetches w0 @ sent_ds
                        \<and> set sent_ds \<subseteq> set ds))"
  proof (intro allI impI, elim conjE)
    fix e w0 status w1 ms year month existing
    assume gs: "get_status cfg e w0 = (Inr (Some status), w1)"
      and rm: "remaining status = Some r"
      and ms: "months_since e (START_YEAR cfg) = Some ms"
      and lc: "locate cfg e (files w1) ms = Inr (Some (year, month, missing, existing))"
    show "(is_skip d \<longrightarrow>
               main cfg e w0 = (Returned 0, w1) \<and> fetches w1 = fetches w0
               \<and> files w1 = files w0)
            \<and> (\<forall>ds. d = Fetch ds \<longrightarrow>
                 main cfg e w0 =
                   (if lock_free e
                    then locked_section cfg e year month ds
                           (w1\<lparr>files := others e (files w1)\<rparr>)
                    else (Returned 1, w1))
                 \<and> (\<exists>sent_ds. fetches (snd (main cfg e w0)) = fetches w0 @ sent_ds
                        \<and> set sent_ds \<subseteq> set ds))"
      unfolding d_def rm [symmetric]
      using main_budget [OF gs ms lc] by (rule conjI)
  qed
  show ?thesis
    apply (intro conjI)
    using skip1 apply assumption
    using skip2 apply assumption
    using full apply assumption
    using part apply assumption
    using early apply assumption
    using run apply assumption
    done
qed

lemma spent_status:
  "get_status ex_cfg spent_env ex_world
     = (Inr (Some \<lparr>total = Some 5000, used = Some 5000, remaining = Some 0\<rparr>),
        snd (get_status ex_cfg spent_env ex_world))"
proof -
  have "fst (get_status ex_cfg spent_env ex_world)
      = Inr (Some \<lparr>total = Some 5000, used = Some 5000, remaining = Some 0\<rparr>)"
    by code_simp
  then show ?thesis by (simp add: prod_eq_iff)
qed

lemma quota_status:
  "get_status ex_cfg quota_env ex_world
     = (Inr (Some \<lparr>total = Some 5000, used = Some 4995, remaining = Some 5\<rparr>),
        snd (get_status ex_cfg quota_env ex_world))"
proof -
  have "fst (get_status ex_cfg quota_env ex_world)
      = Inr (Some \<lparr>total = Some 5000, used = Some 4995, remaining = Some 5\<rparr>)"
    by code_simp
  then show ?thesis by (simp add: prod_eq_iff)
qed

lemma empty_archive_scan:
  assumes td: "today e = (2023, 3)"
  shows "months_since e (START_YEAR ex_cfg) = Some [(2023, 1), (2023, 2), (2023, 3)]"
    and "locate ex_cfg e (files (snd (get_status ex_cfg e ex_world)))
          [(2023, 1), (2023, 2), (2023, 3)] = Inr (Some (2023, 1, jan_dates, []))"
proof -
  show "months_since e (START_YEAR ex_cfg) = Some [(2023, 1), (2023, 2), (2023, 3)]"
    using months_2023_3 by (simp add: months_since_def td ex_cfg_def)
  have rd: "read_csv_rows ex_cfg e (files ex_world) (csv_path_for 2023 1) = []"
    by (simp add: read_csv_rows_def ex_world_def)
  have ms: "missing_in [] jan_dates = jan_dates" by (simp add: missing_in_def)
  have ne: "jan_dates \<noteq> []" by (simp add: jan_dates_def)
  show "locate ex_cfg e (files (snd (get_status ex_cfg e ex_world)))
          [(2023, 1), (2023, 2), (2023, 3)] = Inr (Some (2023, 1, jan_dates, []))"
    using locate_first [OF dates_jan, of ex_cfg e "files ex_world"] rd ms ne
    by (simp add: files_after_status)
qed

text \<open>
  The spec's example: remaining 5, buffer 1, ten missing days, partial allowed, gives
  exactly the four earliest days; with partial not allowed, or remaining 0, it skips; with
  remaining 20 it proceeds with all ten. And two runs on an empty archive, where January
  2023 is the month found: with nothing remaining the run returns 0 after the status
  request and sends no historical request; with 5 remaining it runs the locked section on
  the first four days of January and sends requests for none but those.
\<close>

theorem budget_decides_witness:
  "is_skip (budget ex_cfg (Some 0) ex_missing)
   \<and> is_skip (budget (ex_cfg\<lparr>ALLOW_PARTIAL_MONTH := False\<rparr>) (Some 5) ex_missing)
   \<and> budget ex_cfg (Some 20) ex_missing = Fetch (sort ex_missing)
   \<and> budget ex_cfg (Some 5) ex_missing
       = Fetch [''2023-03-02'', ''2023-03-04'', ''2023-03-05'', ''2023-03-07'']
   \<and> main ex_cfg spent_env ex_world = (Returned 0, snd (get_status ex_cfg spent_env ex_world))
   \<and> fetches (snd (main ex_cfg spent_env ex_world)) = []
   \<and> main ex_cfg quota_env ex_world
       = locked_section ex_cfg quota_env 2023 1 first_four
           (snd (get_status ex_cfg quota_env ex_world))
   \<and> set (fetches (snd (main ex_cfg quota_env ex_world))) \<subseteq> set first_four"
proof -
  note t0 = budget_decides [where cfg = ex_cfg and r = 0 and missing = ex_missing]
  have a: "is_skip (budget ex_cfg (Some 0) ex_missing)"
    using t0 [THEN conjunct1] by (simp add: ex_cfg_def)
  have b: "is_skip (budget (ex_cfg\<lparr>ALLOW_PARTIAL_MONTH := False\<rparr>) (Some 5) ex_missing)"
    using budget_decides [where cfg = "ex_cfg\<lparr>ALLOW_PARTIAL_MONTH := False\<rparr>" and r = 5
        and missing = ex_missing, THEN conjunct2, THEN conjunct1]
    by (simp add: ex_cfg_def ex_missing_length)
  have c: "budget ex_cfg (Some 20) ex_missing = Fetch (sort ex_missing)"
    using budget_decides [where cfg = ex_cfg and r = 20 and missing = ex_missing,
        THEN conjunct2, THEN conjunct2, THEN conjunct1]
    by (simp add: ex_cfg_def ex_missing_length)
  have d: "budget ex_cfg (Some 5) ex_missing = Fetch (take 4 (sort ex_missing))"
    using budget_decides [where cfg = ex_cfg and r = 5 and missing = ex_missing,
        THEN conjunct2, THEN conjunct2, THEN conjunct2, THEN conjunct1]
    by (simp add: ex_cfg_def ex_missing_length)
  note s = budget_decides [where cfg = ex_cfg and r = 0 and missing = jan_dates]
  have sk: "is_skip (budget ex_cfg (Some 0) jan_dates)"
    using s [THEN conjunct1] by (simp add: ex_cfg_def)
  have std: "today spent_env = (2023, 3)"
    by (simp add: spent_env_def ok_env_def ex_env_def)
  have sh: "get_status ex_cfg spent_env ex_world
       = (Inr (Some \<lparr>total = Some 5000, used = Some 5000, remaining = Some 0\<rparr>),
          snd (get_status ex_cfg spent_env ex_world))
     \<and> remaining \<lparr>total = Some 5000, used = Some 5000, remaining = Some 0\<rparr> = Some 0
     \<and> months_since spent_env (START_YEAR ex_cfg) = Some [(2023, 1), (2023, 2), (2023, 3)]
     \<and> locate ex_cfg spent_env (files (snd (get_status ex_cfg spent_env ex_world)))
          [(2023, 1), (2023, 2), (2023, 3)] = Inr (Some (2023, 1, jan_dates, []))"
    using spent_status empty_archive_scan [OF std] by simp
  note s5 = s [THEN conjunct2, THEN conjunct2, THEN conjunct2, THEN conjunct2, THEN conjunct2,
      rule_format, OF sh, THEN conjunct1, rule_format, OF sk]
  have e: "main ex_cfg spent_env ex_world
      = (Returned 0, snd (get_status ex_cfg spent_env ex_world))"
    using s5 by simp
  have "fetches (snd (get_status ex_cfg spent_env ex_world)) = fetches ex_world"
    using s5 by simp
  then have f: "fetches (snd (main ex_cfg spent_env ex_world)) = []"
    using e by (simp add: fetches_def ex_world_def)
  note q = budget_decides [where cfg = ex_cfg and r = 5 and missing = jan_dates]
  have qtd: "today quota_env = (2023, 3)"
    by (simp add: quota_env_def ok_env_def ex_env_def)
  have qh: "get_status ex_cfg quota_env ex_world
       = (Inr (Some \<lparr>total = Some 5000, used = Some 4995, remaining = Some 5\<rparr>),
          snd (get_status ex_cfg quota_env ex_world))
     \<and> remaining \<lparr>total = Some 5000, used = Some 4995, remaining = Some 5\<rparr> = Some 5
     \<and> months_since quota_env (START_YEAR ex_cfg) = Some [(2023, 1), (2023, 2), (2023, 3)]
     \<and> locate ex_cfg quota_env (files (snd (get_status ex_cfg quota_env ex_world)))
          [(2023, 1), (2023, 2), (2023, 3)] = Inr (Some (2023, 1, jan_dates, []))"
    using quota_status empty_archive_scan [OF qtd] by simp
  note q5 = q [THEN conjunct2, THEN conjunct2, THEN conjunct2, THEN conjunct2, THEN conjunct2,
      rule_format, OF qh, THEN conjunct2, rule_format, OF budget_jan]
  have lk: "lock_free quota_env" "others quota_env = (\<lambda>s. s)"
    by (simp_all add: quota_env_def ok_env_def ex_env_def)
  have g: "main ex_cfg quota_env ex_world
       = locked_section ex_cfg quota_env 2023 1 first_four
           (snd (get_status ex_cfg quota_env ex_world))"
    using q5 [THEN conjunct1] lk by simp
  obtain sent_ds where "fetches (snd (main ex_cfg quota_env ex_world))
      = fetches ex_world @ sent_ds" "set sent_ds \<subseteq> set first_four"
    using q5 [THEN conjunct2] by blast
  then have h: "set (fetches (snd (main ex_cfg quota_env ex_world))) \<subseteq> set first_four"
    by (simp add: fetches_def ex_world_def)
  show ?thesis
    apply (intro conjI)
    using a apply assumption
    using b apply assumption
    using c apply assumption
    using d apply (simp only: ex_missing_sorted)
    using e apply assumption
    using f apply assumption
    using g apply assumption
    using h apply assumption
    done
qed

section \<open>Reading the archive, record by record: proofs\<close>

lemma read_loop_map:
  "map_of (read_loop cfg e rs result) d =
     (if d \<noteq> '''' \<and> filter (has_date d) rs \<noteq> []
      then Some (normalize_row cfg e (last (filter (has_date d) rs)) d)
      else map_of result d)"
proof (induction rs arbitrary: result)
  case Nil
  then show ?case by simp
next
  case (Cons r rs)
  show ?case
  proof (cases "\<exists>d'. map_of r ''date'' = Some (Some d') \<and> d' \<noteq> ''''")
    case False
    then have eq: "read_loop cfg e (r # rs) result = read_loop cfg e rs result"
      by (auto split: option.splits)
    have "\<not> has_date d r" if "d \<noteq> ''''" using False that by (auto simp: has_date_def)
    then show ?thesis unfolding eq Cons.IH by auto
  next
    case True
    then obtain d' where d': "map_of r ''date'' = Some (Some d')" "d' \<noteq> ''''" by blast
    then have eq: "read_loop cfg e (r # rs) result
        = read_loop cfg e rs (AList.update d' (normalize_row cfg e r d') result)"
      by simp
    have hd: "has_date d r \<longleftrightarrow> d = d'" using d'(1) by (auto simp: has_date_def)
    show ?thesis
      unfolding eq Cons.IH using d'(2) by (auto simp: hd update_conv')
  qed
qed

text \<open>
  Claim C7, as amended. \<^verbatim>\<open>read_csv_rows\<close> returns the empty mapping, and logs nothing,
  when the file does not exist. On an existing file it returns a record for exactly the
  dates, other than the blank, that some record of the file has, so a record without a
  date is passed over and every dated record is returned; where a date occurs more than
  once its last record is the one returned. The warning is logged exactly when reading
  raised, and the result is then that of the records read until then (the \<open>broken\<close> mark of
  a file changes nothing in the result). A record returned has the keys \<^verbatim>\<open>date\<close> and the
  configured currencies; each currency cell is the blank when the field is blank or
  absent, the number when \<^verbatim>\<open>float\<close> parses the field, and otherwise the field's raw
  string.
\<close>

theorem read_csv_rows_cells:
  "(s p = None \<longrightarrow> read_csv_rows cfg e s p = [] \<and> \<not> read_csv_warns s p)
   \<and> (\<forall>f. s p = Some f \<longrightarrow>
         (\<forall>d. map_of (read_csv_rows cfg e s p) d =
                (if d \<noteq> '''' \<and> (\<exists>r \<in> set (dict_reader (records f)). has_date d r)
                 then Some (normalize_row cfg e
                              (last (filter (has_date d) (dict_reader (records f)))) d)
                 else None))
         \<and> (read_csv_warns s p \<longleftrightarrow> broken f)
         \<and> (\<forall>b. read_csv_rows cfg e (s(p \<mapsto> f\<lparr>broken := b\<rparr>)) p = read_csv_rows cfg e s p))
   \<and> (\<forall>r d c. c \<in> set (CURRENCIES cfg) \<longrightarrow>
         map_of (normalize_row cfg e r d) c = Some
           (if field r c = '''' then Str ''''
            else case float_of_str e (field r c) of
                   Some x \<Rightarrow> Num x
                 | None \<Rightarrow> Str (field r c)))
   \<and> (\<forall>r d. fst ` set (normalize_row cfg e r d) = {''date''} \<union> set (CURRENCIES cfg))
   \<and> (\<forall>r d. ''date'' \<notin> set (CURRENCIES cfg) \<longrightarrow>
         map_of (normalize_row cfg e r d) ''date'' = Some (Str d))"
proof -
  have a: "s p = None \<longrightarrow> read_csv_rows cfg e s p = [] \<and> \<not> read_csv_warns s p"
    by (simp add: read_csv_rows_def read_csv_warns_def)
  have b: "\<forall>f. s p = Some f \<longrightarrow>
         (\<forall>d. map_of (read_csv_rows cfg e s p) d =
                (if d \<noteq> '''' \<and> (\<exists>r \<in> set (dict_reader (records f)). has_date d r)
                 then Some (normalize_row cfg e
                              (last (filter (has_date d) (dict_reader (records f)))) d)
                 else None))
         \<and> (read_csv_warns s p \<longleftrightarrow> broken f)
         \<and> (\<forall>b. read_csv_rows cfg e (s(p \<mapsto> f\<lparr>broken := b\<rparr>)) p = read_csv_rows cfg e s p)"
  proof (intro allI impI)
    fix f assume f: "s p = Some f"
    have m: "\<forall>d. map_of (read_csv_rows cfg e s p) d =
                (if d \<noteq> '''' \<and> (\<exists>r \<in> set (dict_reader (records f)). has_date d r)
                 then Some (normalize_row cfg e
                              (last (filter (has_date d) (dict_reader (records f)))) d)
                 else None)"
    proof
      fix d
      have "(filter (has_date d) (dict_reader (records f)) \<noteq> [])
          = (\<exists>r \<in> set (dict_reader (records f)). has_date d r)"
        by (simp add: filter_empty_conv)
      then show "map_of (read_csv_rows cfg e s p) d =
                (if d \<noteq> '''' \<and> (\<exists>r \<in> set (dict_reader (records f)). has_date d r)
                 then Some (normalize_row cfg e
                              (last (filter (has_date d) (dict_reader (records f)))) d)
                 else None)"
        by (simp add: read_csv_rows_def f read_loop_map)
    qed
    have w: "read_csv_warns s p \<longleftrightarrow> broken f" by (simp add: read_csv_warns_def f)
    have k: "\<forall>b. read_csv_rows cfg e (s(p \<mapsto> f\<lparr>broken := b\<rparr>)) p = read_csv_rows cfg e s p"
      by (simp add: read_csv_rows_def f)
    show "(\<forall>d. map_of (read_csv_rows cfg e s p) d =
                (if d \<noteq> '''' \<and> (\<exists>r \<in> set (dict_reader (records f)). has_date d r)
                 then Some (normalize_row cfg e
                              (last (filter (has_date d) (dict_reader (records f)))) d)
                 else None))
         \<and> (read_csv_warns s p \<longleftrightarrow> broken f)
         \<and> (\<forall>b. read_csv_rows cfg e (s(p \<mapsto> f\<lparr>broken := b\<rparr>)) p = read_csv_rows cfg e s p)"
      using m w k by (intro conjI)
  qed
  have c: "\<forall>r d c. c \<in> set (CURRENCIES cfg) \<longrightarrow>
         map_of (normalize_row cfg e r d) c = Some
           (if field r c = '''' then Str ''''
            else case float_of_str e (field r c) of
                   Some x \<Rightarrow> Num x
                 | None \<Rightarrow> Str (field r c))"
    using normalize_row_lookup [of _ cfg e] normalize_cell_field [of e] by simp
  have d: "\<forall>r d. fst ` set (normalize_row cfg e r d) = {''date''} \<union> set (CURRENCIES cfg)"
    by (simp only: normalize_row_keys simp_thms)
  have e: "\<forall>r d. ''date'' \<notin> set (CURRENCIES cfg) \<longrightarrow>
         map_of (normalize_row cfg e r d) ''date'' = Some (Str d)"
    by (simp add: normalize_row_def fold_update_lookup)
  show ?thesis
    apply (intro conjI)
    using a apply assumption
    using b apply assumption
    using c apply assumption
    using d apply assumption
    using e apply assumption
    done
qed

lemma dup_reader:
  "dict_reader (records dup_file)
     = [[(''date'', Some ''2023-03-01''), (''USD'', Some ''1.0''), (''EUR'', Some ''1.0'')],
        [(''date'', Some ''2023-03-01''), (''USD'', Some ''1.5''), (''EUR'', Some '''')]]"
  by (simp add: dup_file_def dict_reader_def dict_row_def)

lemma ex_reader:
  "dict_reader (records ex_file)
     = [[(''date'', Some ''2023-03-01''), (''USD'', Some ''abc''), (''EUR'', Some ''1.5'')],
        [(''date'', Some ''''), (''USD'', Some ''1.0''), (''EUR'', Some ''1.0'')],
        [(''date'', Some ''2023-03-02''), (''USD'', Some ''1.0''), (''EUR'', None)]]"
  by (simp add: ex_file_def dict_reader_def dict_row_def)

text \<open>
  The file of March with a read error after its last record gives the two dated records
  and the warning; the short record of 2 March has the blank for its absent field; of two
  records of one date the second is returned; the file of April does not exist and gives
  the empty mapping without a warning.
\<close>

theorem read_csv_rows_cells_witness:
  "read_csv_rows ex_cfg ex_env
        (ex_fs(csv_path_for 2023 3 \<mapsto> ex_file\<lparr>broken := True\<rparr>)) (csv_path_for 2023 3)
     = [(''2023-03-01'', [(''date'', Str ''2023-03-01''), (''USD'', Str ''abc''),
                          (''EUR'', Num (Finite (3 / 2)))]),
        (''2023-03-02'', [(''date'', Str ''2023-03-02''), (''USD'', Num (Finite 1)),
                          (''EUR'', Str '''')])]
   \<and> read_csv_warns (ex_fs(csv_path_for 2023 3 \<mapsto> ex_file\<lparr>broken := True\<rparr>))
         (csv_path_for 2023 3)
   \<and> map_of (read_csv_rows ex_cfg ex_env ex_fs (csv_path_for 2023 3)) ''2023-03-02''
       = Some [(''date'', Str ''2023-03-02''), (''USD'', Num (Finite 1)), (''EUR'', Str '''')]
   \<and> map_of (read_csv_rows ex_cfg ex_env dup_fs (csv_path_for 2023 3)) ''2023-03-01''
       = Some [(''date'', Str ''2023-03-01''), (''USD'', Num (Finite (3 / 2))),
               (''EUR'', Str '''')]
   \<and> read_csv_rows ex_cfg ex_env ex_fs (csv_path_for 2023 4) = []
   \<and> \<not> read_csv_warns ex_fs (csv_path_for 2023 4)"
proof -
  let ?p = "csv_path_for 2023 3"
  let ?bs = "ex_fs(?p \<mapsto> ex_file\<lparr>broken := True\<rparr>)"
  have f3: "ex_fs ?p = Some ex_file" by (simp add: ex_fs_def)
  have b3: "?bs ?p = Some (ex_file\<lparr>broken := True\<rparr>)" by simp
  have d3: "dup_fs ?p = Some dup_file" by (simp add: dup_fs_def)
  have f4: "ex_fs (csv_path_for 2023 4) = None" by (simp add: ex_fs_def csv_path_for_def)
  note t = read_csv_rows_cells [of ex_fs ?p ex_cfg ex_env, THEN conjunct2, THEN conjunct1,
      rule_format, OF f3]
  note tb = read_csv_rows_cells [of ?bs ?p ex_cfg ex_env, THEN conjunct2, THEN conjunct1,
      rule_format, OF b3]
  note td = read_csv_rows_cells [of dup_fs ?p ex_cfg ex_env, THEN conjunct2, THEN conjunct1,
      rule_format, OF d3]
  note u = read_csv_rows_cells [of ex_fs "csv_path_for 2023 4" ex_cfg ex_env, THEN conjunct1,
      rule_format, OF f4]
  have "read_csv_rows ex_cfg ex_env ?bs ?p = read_csv_rows ex_cfg ex_env ex_fs ?p"
    using t [THEN conjunct2, THEN conjunct2, rule_format, of True] .
  then have a: "read_csv_rows ex_cfg ex_env ?bs ?p
     = [(''2023-03-01'', [(''date'', Str ''2023-03-01''), (''USD'', Str ''abc''),
                          (''EUR'', Num (Finite (3 / 2)))]),
        (''2023-03-02'', [(''date'', Str ''2023-03-02''), (''USD'', Num (Finite 1)),
                          (''EUR'', Str '''')])]"
    using ex_read by simp
  have b: "read_csv_warns ?bs ?p"
    using tb [THEN conjunct2, THEN conjunct1] by simp
  have c: "map_of (read_csv_rows ex_cfg ex_env ex_fs ?p) ''2023-03-02''
       = Some [(''date'', Str ''2023-03-02''), (''USD'', Num (Finite 1)), (''EUR'', Str '''')]"
    using t [THEN conjunct1, rule_format, of "''2023-03-02''"]
    by (simp add: ex_reader has_date_def normalize_row_def normalize_cell_def ex_cfg_def
        ex_env_def ex_float_def)
  have d: "map_of (read_csv_rows ex_cfg ex_env dup_fs ?p) ''2023-03-01''
       = Some [(''date'', Str ''2023-03-01''), (''USD'', Num (Finite (3 / 2))),
               (''EUR'', Str '''')]"
    using td [THEN conjunct1, rule_format, of "''2023-03-01''"]
    by (simp add: dup_reader has_date_def normalize_row_def normalize_cell_def ex_cfg_def
        ex_env_def ex_float_def)
  show ?thesis
    apply (intro conjI)
    using a apply assumption
    using b apply assumption
    using c apply assumption
    using d apply assumption
    using u [THEN conjunct1] apply assumption
    using u [THEN conjunct2] apply assumption
    done
qed

text \<open>
  The claim as stated fails twice on the file of March. A cell that is neither blank nor a
  number, the field \<^verbatim>\<open>abc\<close> on which \<^verbatim>\<open>float\<close> raises, is returned as the raw string, in a
  record that is not skipped. And the record without a date is skipped with no warning
  logged.
\<close>

theorem read_csv_rows_counterexample:
  "map_of (read_csv_rows ex_cfg ex_env ex_fs (csv_path_for 2023 3)) ''2023-03-01''
     = Some [(''date'', Str ''2023-03-01''), (''USD'', Str ''abc''),
             (''EUR'', Num (Finite (3 / 2)))]
   \<and> float_of_str ex_env ''abc'' = None
   \<and> map_of [(''date'', Str ''2023-03-01''), (''USD'', Str ''abc''),
             (''EUR'', Num (Finite (3 / 2)))] ''USD'' = Some (Str ''abc'')
   \<and> ex_fs (csv_path_for 2023 3) = Some ex_file
   \<and> ['''', ''1.0'', ''1.0''] \<in> set (records ex_file)
   \<and> map fst (read_csv_rows ex_cfg ex_env ex_fs (csv_path_for 2023 3))
       = [''2023-03-01'', ''2023-03-02'']
   \<and> \<not> read_csv_warns ex_fs (csv_path_for 2023 3)"
  using ex_read by (simp add: ex_env_def ex_float_def ex_fs_def ex_file_def read_csv_warns_def)

section \<open>The rate limiter: proofs\<close>

lemma in_window_later: "now \<le> now' \<Longrightarrow> in_window now' t \<Longrightarrow> in_window now t"
  by (simp add: in_window_def)

lemma length_filter_imp:
  "(\<And>x. P x \<Longrightarrow> Q x) \<Longrightarrow> length (filter P xs) \<le> length (filter Q xs)"
  by (induction xs) auto

lemma window_shrinks:
  "now \<le> now' \<Longrightarrow> length (filter (in_window now') xs) \<le> length (filter (in_window now) xs)"
  by (rule length_filter_imp) (rule in_window_later)

text \<open>Time passing, with the list and the log as they are.\<close>

lemma later_log_ok:
  assumes "log_ok cfg w" "clock w \<le> clock w'" "stamps w' = stamps w" "recorded w' = recorded w"
  shows "log_ok cfg w'"
  using assms unfolding log_ok_def by (auto intro: order_trans)

lemma later_count:
  assumes "clock w \<le> clock w'" "recorded w' = recorded w"
  shows "window_count w' \<le> window_count w"
  using assms window_shrinks [of "clock w" "clock w'" "recorded w"]
  by (simp add: window_count_def)

lemma later_rate_inv:
  assumes "rate_inv cfg w" "clock w \<le> clock w'" "stamps w' = stamps w" "recorded w' = recorded w"
  shows "rate_inv cfg w'"
  using assms later_log_ok [of cfg w w'] later_count [of w w']
  unfolding rate_inv_def by linarith

lemma later_slot_free:
  assumes "slot_free cfg w" "clock w \<le> clock w'" "stamps w' = stamps w" "recorded w' = recorded w"
  shows "slot_free cfg w'"
  using assms later_log_ok [of cfg w w'] later_count [of w w']
  unfolding slot_free_def by linarith

lemma slot_free_rate_inv: "slot_free cfg w \<Longrightarrow> rate_inv cfg w"
  unfolding slot_free_def rate_inv_def by linarith

lemma tick_later:
  "0 \<le> delay e (step w) \<Longrightarrow> clock w \<le> clock (tick e w)"
  by simp

lemma prune_log_ok:
  assumes ok: "log_ok cfg w" and cl: "clock w \<le> clock w'"
      and st: "stamps w' = filter (in_window (clock w')) (stamps w)"
      and rc: "recorded w' = recorded w"
  shows "log_ok cfg w'"
proof -
  have a: "filter (in_window now) (stamps w') = filter (in_window now) (recorded w')"
    if "clock w' \<le> now" for now
  proof -
    have "filter (in_window now) (stamps w') = filter (in_window now) (stamps w)"
      unfolding st filter_filter using in_window_later [OF that]
      by (intro filter_cong) auto
    also have "\<dots> = filter (in_window now) (recorded w)"
      using ok cl that unfolding log_ok_def by auto
    finally show ?thesis by (simp add: rc)
  qed
  have b: "\<forall>t \<in> set (recorded w'). t \<le> clock w'"
    using ok cl unfolding log_ok_def rc by (auto intro: order_trans)
  show ?thesis
    using ok a b unfolding log_ok_def rc by simp
qed

lemma prune_count:
  assumes ok: "log_ok cfg w" and cl: "clock w \<le> clock w'"
      and st: "stamps w' = filter (in_window (clock w')) (stamps w)"
      and rc: "recorded w' = recorded w"
  shows "window_count w' = length (stamps w')"
proof -
  have "filter (in_window (clock w')) (stamps w) = filter (in_window (clock w')) (recorded w)"
    using ok cl unfolding log_ok_def by auto
  then show ?thesis by (simp add: window_count_def st rc)
qed

lemma requests_get_later:
  assumes "requests_get e rq w = (out, w')"
  shows "clock w' = clock w + delay e (step w) \<and> stamps w' = stamps w
     \<and> recorded w' = recorded w"
  using assms by (auto simp: requests_get_def Let_def)

lemma wait_for_rate_slot_cases:
  fixes cfg e w
  defines "w1 \<equiv> tick e w"
  defines "ts \<equiv> filter (in_window (clock w1)) (stamps w)"
  defines "w2 \<equiv> w1\<lparr>stamps := ts\<rparr>"
  defines "d \<equiv> 60 - (clock w1 - Min (set ts)) + 1 / 20"
  defines "w3 \<equiv> (tick e w2)\<lparr>clock := clock (tick e w2) + d, slept := slept (tick e w2) @ [(RateLimit, d)]\<rparr>"
  defines "w4 \<equiv> tick e w3"
  shows "wait_for_rate_slot cfg e w =
     (if int (length ts) < MAX_PER_MINUTE cfg then (None, w2)
      else if ts = [] then (Some ValueError, w2)
      else (None, w4\<lparr>stamps := filter (in_window (clock w4)) ts\<rparr>))"
proof -
  have "0 \<le> d" if "ts \<noteq> []"
    using Min_in_window [OF that, of "clock w1"] by (simp add: ts_def d_def)
  then have nd: "\<not> d < 0" if "ts \<noteq> []" using that by simp
  have st: "stamps w4 = ts" by (simp add: w4_def w3_def w2_def)
  show ?thesis
    unfolding wait_for_rate_slot_def time_time_eq Let_def prod.case
    using nd st
    by (simp add: time_sleep_def Let_def w1_def ts_def w2_def d_def w3_def w4_def)
qed

lemma wait_for_rate_slot_rate:
  assumes nn: "\<forall>k. 0 \<le> delay e k" and inv: "rate_inv cfg w"
  shows "rate_inv cfg (snd (wait_for_rate_slot cfg e w))
     \<and> (fst (wait_for_rate_slot cfg e w) = None
          \<longrightarrow> slot_free cfg (snd (wait_for_rate_slot cfg e w)))"
proof -
  define w1 where "w1 = tick e w"
  define ts where "ts = filter (in_window (clock w1)) (stamps w)"
  define w2 where "w2 = w1\<lparr>stamps := ts\<rparr>"
  define d where "d = 60 - (clock w1 - Min (set ts)) + 1 / 20"
  define w3 where "w3 = (tick e w2)\<lparr>clock := clock (tick e w2) + d,
      slept := slept (tick e w2) @ [(RateLimit, d)]\<rparr>"
  define w4 where "w4 = tick e w3"
  define w5 where "w5 = w4\<lparr>stamps := filter (in_window (clock w4)) ts\<rparr>"
  have eq: "wait_for_rate_slot cfg e w =
     (if int (length ts) < MAX_PER_MINUTE cfg then (None, w2)
      else if ts = [] then (Some ValueError, w2)
      else (None, w5))"
    using wait_for_rate_slot_cases [of cfg e w]
    unfolding w1_def ts_def w2_def d_def w3_def w4_def w5_def .
  have ok: "log_ok cfg w" and cnt: "int (window_count w) \<le> max 0 (MAX_PER_MINUTE cfg)"
    using inv by (simp_all add: rate_inv_def)
  have c2: "clock w \<le> clock w2" using nn by (simp add: w2_def w1_def)
  have s2: "stamps w2 = filter (in_window (clock w2)) (stamps w)"
    by (simp add: w2_def ts_def)
  have r2: "recorded w2 = recorded w" by (simp add: w2_def w1_def)
  have ok2: "log_ok cfg w2" using prune_log_ok [OF ok c2 s2 r2] .
  have n2: "window_count w2 = length ts"
    using prune_count [OF ok c2 s2 r2] by (simp add: w2_def)
  have le2: "window_count w2 \<le> window_count w" using later_count [OF c2 r2] .
  have inv2: "rate_inv cfg w2" using ok2 le2 cnt by (simp add: rate_inv_def)
  show ?thesis
  proof (cases "int (length ts) < MAX_PER_MINUTE cfg")
    case True
    then have "slot_free cfg w2" using ok2 n2 by (simp add: slot_free_def)
    then show ?thesis using True inv2 by (simp add: eq)
  next
    case False
    note full = False
    show ?thesis
    proof (cases "ts = []")
      case True
      then show ?thesis using full inv2 by (simp add: eq)
    next
      case False
      have mem: "Min (set ts) \<in> set ts" using False by (simp add: Min_in)
      then have "in_window (clock w1) (Min (set ts))" by (simp add: ts_def)
      then have dpos: "0 \<le> d" by (simp add: d_def in_window_def)
      have c3: "clock w3 = clock w2 + delay e (step w2) + d" by (simp add: w3_def)
      have c4: "clock w4 = clock w3 + delay e (step w3)" by (simp add: w4_def)
      have c12: "clock w2 = clock w1" by (simp add: w2_def)
      have late: "clock w1 + d \<le> clock w4"
        using nn [rule_format, of "step w2"] nn [rule_format, of "step w3"]
        by (simp add: c3 c4 c12)
      then have gone: "\<not> in_window (clock w4) (Min (set ts))"
        by (simp add: d_def in_window_def)
      have c5: "clock w2 \<le> clock w5" using late dpos by (simp add: w5_def c12)
      have s5: "stamps w5 = filter (in_window (clock w5)) (stamps w2)"
        by (simp add: w5_def w2_def)
      have r5: "recorded w5 = recorded w2" by (simp add: w5_def w4_def w3_def)
      have ok5: "log_ok cfg w5" using prune_log_ok [OF ok2 c5 s5 r5] .
      have n5: "window_count w5 = length (filter (in_window (clock w4)) ts)"
        using prune_count [OF ok2 c5 s5 r5] by (simp add: w5_def)
      have "length (filter (in_window (clock w4)) ts) < length ts"
        using mem gone by (rule length_filter_less)
      then have lt: "window_count w5 < window_count w2" by (simp add: n5 n2)
      have "0 < window_count w2" using lt by simp
      then have "int (window_count w2) \<le> MAX_PER_MINUTE cfg"
        using le2 cnt by linarith
      then have "slot_free cfg w5" using ok5 lt by (simp add: slot_free_def)
      then show ?thesis
        using full False slot_free_rate_inv [of cfg w5] by (simp add: eq)
    qed
  qed
qed

lemma paced_snoc:
  assumes "paced mx lg" and "int (length (filter (in_window t) lg)) < mx"
  shows "paced mx (lg @ [t])"
proof -
  have "int (length (filter (in_window ((lg @ [t]) ! i)) (take (Suc i) (lg @ [t])))) \<le> mx"
    if "i < length (lg @ [t])" for i
  proof (cases "i < length lg")
    case True
    then show ?thesis using assms(1) by (simp add: paced_def nth_append)
  next
    case False
    then have "i = length lg" using that by simp
    then show ?thesis using assms(2) by (simp add: in_window_def)
  qed
  then show ?thesis unfolding paced_def by blast
qed

lemma record_request_timestamp_rate:
  assumes nn: "\<forall>k. 0 \<le> delay e k" and free: "slot_free cfg w"
  shows "rate_inv cfg (record_request_timestamp e w)"
proof -
  define t where "t = clock (tick e w)"
  define w' where "w' = record_request_timestamp e w"
  have ok: "log_ok cfg w" and cnt: "int (window_count w) < MAX_PER_MINUTE cfg"
    using free by (simp_all add: slot_free_def)
  have ct: "clock w \<le> t" using nn by (simp add: t_def)
  have cl: "clock w' = t" and st: "stamps w' = stamps w @ [t]"
    and rc: "recorded w' = recorded w @ [t]"
    by (simp_all add: w'_def t_def record_request_timestamp_def time_time_eq)
  have old: "\<forall>s \<in> set (recorded w). s \<le> t"
    using ok ct unfolding log_ok_def by (auto intro: order_trans)
  have srt: "sorted (recorded w @ [t])"
    using ok old by (simp add: log_ok_def sorted_append)
  have agree: "filter (in_window now) (stamps w @ [t]) = filter (in_window now) (recorded w @ [t])"
    if "t \<le> now" for now
  proof -
    have "clock w \<le> now" using ct that by simp
    then have "filter (in_window now) (stamps w) = filter (in_window now) (recorded w)"
      using ok unfolding log_ok_def by blast
    then show ?thesis by simp
  qed
  have wt: "length (filter (in_window t) (recorded w)) \<le> window_count w"
    using window_shrinks [OF ct, of "recorded w"] by (simp add: window_count_def)
  then have lt: "int (length (filter (in_window t) (recorded w))) < MAX_PER_MINUTE cfg"
    using cnt by linarith
  have pc: "paced (MAX_PER_MINUTE cfg) (recorded w @ [t])"
    using paced_snoc [OF _ lt] ok by (simp add: log_ok_def)
  have ok': "log_ok cfg w'"
    unfolding log_ok_def cl st rc using srt old agree pc by auto
  have "window_count w' = Suc (length (filter (in_window t) (recorded w)))"
    by (simp add: window_count_def cl rc in_window_def)
  then have "int (window_count w') \<le> MAX_PER_MINUTE cfg" using lt by simp
  then show ?thesis using ok' unfolding w'_def rate_inv_def by simp
qed

lemma requests_get_rate:
  assumes nn: "\<forall>k. 0 \<le> delay e k" and rg: "requests_get e rq w = (out, w')"
  shows "rate_inv cfg w \<Longrightarrow> rate_inv cfg w'" and "slot_free cfg w \<Longrightarrow> slot_free cfg w'"
proof -
  have c: "clock w \<le> clock w'" and s: "stamps w' = stamps w" and r: "recorded w' = recorded w"
    using requests_get_later [OF rg] nn by simp_all
  show "rate_inv cfg w \<Longrightarrow> rate_inv cfg w'" using later_rate_inv [OF _ c s r] .
  show "slot_free cfg w \<Longrightarrow> slot_free cfg w'" using later_slot_free [OF _ c s r] .
qed

lemma time_sleep_rate:
  assumes nn: "\<forall>k. 0 \<le> delay e k" and sl: "time_sleep e k d w = Inr w'"
      and inv: "rate_inv cfg w"
  shows "rate_inv cfg w'"
proof -
  have "clock w \<le> clock w'" "stamps w' = stamps w" "recorded w' = recorded w"
    using time_sleep_Inr [OF sl] nn [rule_format, of "step w"] by simp_all
  then show ?thesis using later_rate_inv [OF inv] by blast
qed

lemma do_request_loop_rate:
  assumes nn: "\<forall>k. 0 \<le> delay e k"
  shows "rate_inv cfg w \<longrightarrow> rate_inv cfg (snd (do_request_loop cfg e rq car a w))"
  using nn
proof (induction cfg e rq car a w rule: do_request_loop.induct)
  case (1 cfg e rq car a w)
  note nn = "1.prems"
  define w1 where "w1 = (if car then snd (wait_for_rate_slot cfg e w) else w)"
  define stop where "stop = (if car then fst (wait_for_rate_slot cfg e w) else None)"
  have lim: "(if car then wait_for_rate_slot cfg e w else (None, w)) = (stop, w1)"
    by (simp add: w1_def stop_def)
  obtain out w2 where rg: "requests_get e rq w1 = (out, w2)"
    by (cases "requests_get e rq w1")
  define w3 where "w3 = (if car then record_request_timestamp e w2 else w2)"
  show ?case
  proof
    assume inv: "rate_inv cfg w"
    have i1: "rate_inv cfg w1"
      using wait_for_rate_slot_rate [OF nn inv] inv by (simp add: w1_def)
    have s1: "slot_free cfg w1" if "car" "stop = None"
      using wait_for_rate_slot_rate [OF nn inv] that by (simp add: w1_def stop_def)
    have i2: "rate_inv cfg w2" using requests_get_rate(1) [OF nn rg i1] .
    have s2: "slot_free cfg w2" if "car" "stop = None"
      using requests_get_rate(2) [OF nn rg s1 [OF that]] .
    have i3: "rate_inv cfg w3" if "stop = None"
      using record_request_timestamp_rate [OF nn s2 [OF _ that]] i2 by (simp add: w3_def)
    show "rate_inv cfg (snd (do_request_loop cfg e rq car a w))"
    proof (cases stop)
      case (Some x)
      then show ?thesis
        apply (subst do_request_loop.simps)
        using i1 by (simp add: lim Let_def)
    next
      case None
      show ?thesis
      proof (cases out)
        case Raises
        show ?thesis
        proof (cases "int (a + 1) \<le> MAX_RETRIES cfg")
          case False
          then show ?thesis
            apply (subst do_request_loop.simps)
            using None Raises i2 by (simp add: lim rg Let_def)
        next
          case True
          show ?thesis
          proof (cases "time_sleep e Backoff (backoff cfg (a + 1)) w2")
            case (Inl x)
            then show ?thesis
              apply (subst do_request_loop.simps)
              using None Raises True i2 by (simp add: lim rg Let_def)
          next
            case (Inr w4)
            have i4: "rate_inv cfg w4" using time_sleep_rate [OF nn Inr i2] .
            have ih: "rate_inv cfg (snd (do_request_loop cfg e rq car (a + 1) w4))"
              using "1.IH"(1) [OF refl refl lim [symmetric] None rg [symmetric] Raises True Inr nn]
                i4 by simp
            have eq: "do_request_loop cfg e rq car a w = do_request_loop cfg e rq car (a + 1) w4"
              apply (subst do_request_loop.simps)
              using None Raises True Inr by (simp add: lim rg Let_def)
            show ?thesis unfolding eq using ih .
          qed
        qed
      next
        case (Responds resp)
        show ?thesis
        proof (cases "status_code resp \<ge> 500 \<and> int (a + 1) \<le> MAX_RETRIES cfg")
          case False
          then show ?thesis
            apply (subst do_request_loop.simps)
            using None Responds i3 [OF None] by (auto simp: lim rg Let_def w3_def)
        next
          case True
          show ?thesis
          proof (cases "time_sleep e Backoff (backoff cfg (a + 1)) w3")
            case (Inl x)
            then show ?thesis
              apply (subst do_request_loop.simps)
              using None Responds True i3 [OF None] by (auto simp: lim rg Let_def w3_def)
          next
            case (Inr w4)
            have i4: "rate_inv cfg w4" using time_sleep_rate [OF nn Inr i3 [OF None]] .
            have ih: "rate_inv cfg (snd (do_request_loop cfg e rq car (a + 1) w4))"
              using "1.IH"(2) [OF refl refl lim [symmetric] None rg [symmetric] Responds
                  w3_def True Inr nn] i4
              by simp
            have eq: "do_request_loop cfg e rq car a w = do_request_loop cfg e rq car (a + 1) w4"
              apply (subst do_request_loop.simps)
              using None Responds True Inr by (auto simp: lim rg Let_def w3_def)
            show ?thesis unfolding eq using ih .
          qed
        qed
      qed
    qed
  qed
qed

lemma do_request_rate:
  assumes "\<forall>k. 0 \<le> delay e k" and "rate_inv cfg w"
  shows "rate_inv cfg (snd (do_request cfg e rq car w))"
  using do_request_loop_rate [OF assms(1), of cfg w rq car 0] assms(2)
  by (simp add: do_request_def)

lemma get_status_rate:
  assumes nn: "\<forall>k. 0 \<le> delay e k" and inv: "rate_inv cfg w"
  shows "rate_inv cfg (snd (get_status cfg e w))"
proof -
  have "snd (get_status cfg e w) = snd (do_request cfg e StatusReq False w)"
    by (auto simp: get_status_def split: prod.splits sum.splits if_splits body.splits)
  then show ?thesis using do_request_rate [OF nn inv] by simp
qed

lemma get_historical_rate:
  assumes nn: "\<forall>k. 0 \<le> delay e k" and inv: "rate_inv cfg w"
  shows "rate_inv cfg (snd (get_historical_for_date cfg e d w))"
proof -
  have "snd (get_historical_for_date cfg e d w)
      = snd (do_request cfg e (HistoricalReq d) True w)"
    by (auto simp: get_historical_for_date_def Let_def
        split: prod.splits sum.splits if_splits body.splits)
  then show ?thesis using do_request_rate [OF nn inv] by simp
qed

lemma fetch_loop_rate:
  assumes nn: "\<forall>k. 0 \<le> delay e k"
  shows "rate_inv cfg w \<Longrightarrow> rate_inv cfg (snd (fetch_loop cfg e dts acc w))"
proof (induction dts arbitrary: acc w)
  case Nil
  then show ?case by simp
next
  case (Cons dt dts)
  obtain r0 w1 where gh: "get_historical_for_date cfg e dt w = (r0, w1)"
    by (cases "get_historical_for_date cfg e dt w")
  have i1: "rate_inv cfg w1" using get_historical_rate [OF nn Cons.prems, of dt] gh by simp
  show ?case
  proof (cases r0)
    case (Inl x)
    then show ?thesis using gh i1 by simp
  next
    case (Inr row)
    then show ?thesis using gh Cons.IH [OF i1] by simp
  qed
qed

lemma rate_inv_files [simp]: "rate_inv cfg (w\<lparr>files := f\<rparr>) = rate_inv cfg w"
  by (simp add: rate_inv_def log_ok_def window_count_def)

lemma write_archive_rate:
  "rate_inv cfg w \<Longrightarrow> rate_inv cfg (snd (write_archive cfg e p rows w))"
  by (simp add: write_archive_def split: prod.splits)

lemma locked_section_rate:
  assumes nn: "\<forall>k. 0 \<le> delay e k" and inv: "rate_inv cfg w"
  shows "rate_inv cfg (snd (locked_section cfg e year month planned w))"
proof (cases "dates_in_month year month")
  case (Inl x)
  then show ?thesis using inv by (simp add: locked_section_def)
next
  case (Inr all_dates)
  define p where "p = csv_path_for year month"
  define existing_rows where "existing_rows = read_csv_rows cfg e (files w) p"
  define md where "md = sort (filter (\<lambda>d. d \<in> set (missing_in existing_rows all_dates)) planned)"
  obtain r rows_fetched w' where fl: "fetch_loop cfg e md [] w = ((r, rows_fetched), w')"
    by (cases "fetch_loop cfg e md [] w") auto
  have i1: "rate_inv cfg w'" using fetch_loop_rate [OF nn inv, of md "[]"] fl by simp
  obtain r2 w2 where wa: "write_archive cfg e p (dict_update existing_rows rows_fetched) w'
      = (r2, w2)"
    by (cases "write_archive cfg e p (dict_update existing_rows rows_fetched) w'")
  have i2: "rate_inv cfg w2"
    using write_archive_rate [OF i1, of e p "dict_update existing_rows rows_fetched"] wa
    by simp
  have eq: "locked_section cfg e year month planned w =
     (if md = [] then (Returned 0, w)
      else case r of
             Some x \<Rightarrow> if rows_fetched \<noteq> [] then (Returned 1, w2) else (Returned 1, w')
           | None \<Rightarrow> (case r2 of Some x \<Rightarrow> (Returned 1, w2) | None \<Rightarrow> (Returned 0, w2)))"
    unfolding locked_section_def Let_def Inr sum.case
      p_def [symmetric] existing_rows_def [symmetric] md_def [symmetric]
    by (cases r; cases r2) (simp_all add: fl wa)
  show ?thesis
    unfolding eq using inv i1 i2 by (simp split: option.splits)
qed

lemma main_rate:
  assumes nn: "\<forall>k. 0 \<le> delay e k" and inv: "rate_inv cfg w"
  shows "rate_inv cfg (snd (main cfg e w))"
proof -
  obtain r1 w1 where gs: "get_status cfg e w = (r1, w1)"
    by (cases "get_status cfg e w")
  have i1: "rate_inv cfg w1" using get_status_rate [OF nn inv] gs by simp
  have ls: "rate_inv cfg (snd (locked_section cfg e y m pl (w1\<lparr>files := f\<rparr>)))" for y m pl f
    using locked_section_rate [OF nn, of cfg "w1\<lparr>files := f\<rparr>"] i1 by simp
  show ?thesis
    unfolding main_def gs prod.case
    using i1 ls
    by (simp split: sum.splits option.splits prod.splits decision.splits)
qed

lemma fresh_rate_inv: "stamps w = [] \<Longrightarrow> recorded w = [] \<Longrightarrow> rate_inv cfg w"
  by (simp add: rate_inv_def log_ok_def window_count_def paced_def)

text \<open>
  Claim C10, as amended. The clock never goes back and a sleep lasts at least as long as
  asked: no interaction takes a negative time. A run starts with no timestamp recorded,
  which is a state between requests (\<open>rate_inv\<close>); \<^verbatim>\<open>wait_for_rate_slot\<close>,
  \<^verbatim>\<open>do_request\<close> and \<^verbatim>\<open>main\<close> lead from such a state to such a state. When
  \<^verbatim>\<open>wait_for_rate_slot\<close> returns from such a state, strictly fewer than
  \<open>MAX_PER_MINUTE\<close> of the recorded timestamps lie in the 60 seconds that end at that
  moment, the module's list agreeing with the log on that window (\<open>slot_free\<close>). The
  request that follows keeps this, and when its timestamp is recorded the 60 seconds that
  end at that moment hold at most \<open>MAX_PER_MINUTE\<close> recorded timestamps, the new one
  included. So at every recording of a run the window held at most \<open>MAX_PER_MINUTE\<close>
  (\<open>paced\<close>).
\<close>

theorem rate_limit_respected:
  assumes nn: "\<forall>k. 0 \<le> delay e k"
  shows "(stamps w0 = [] \<and> recorded w0 = [] \<longrightarrow>
            rate_inv cfg w0 \<and> paced (MAX_PER_MINUTE cfg) (recorded (snd (main cfg e w0))))
       \<and> (rate_inv cfg w \<longrightarrow>
            rate_inv cfg (snd (wait_for_rate_slot cfg e w))
            \<and> (fst (wait_for_rate_slot cfg e w) = None \<longrightarrow>
                 slot_free cfg (snd (wait_for_rate_slot cfg e w)))
            \<and> rate_inv cfg (snd (do_request cfg e rq car w))
            \<and> rate_inv cfg (snd (main cfg e w))
            \<and> paced (MAX_PER_MINUTE cfg) (recorded w))
       \<and> (slot_free cfg w \<longrightarrow>
            int (window_count w) < MAX_PER_MINUTE cfg
            \<and> filter (in_window (clock w)) (stamps w) = filter (in_window (clock w)) (recorded w)
            \<and> slot_free cfg (snd (requests_get e rq w))
            \<and> rate_inv cfg (record_request_timestamp e (snd (requests_get e rq w)))
            \<and> int (window_count (record_request_timestamp e (snd (requests_get e rq w))))
                 \<le> MAX_PER_MINUTE cfg)"
proof -
  have a: "stamps w0 = [] \<and> recorded w0 = [] \<longrightarrow>
            rate_inv cfg w0 \<and> paced (MAX_PER_MINUTE cfg) (recorded (snd (main cfg e w0)))"
  proof
    assume "stamps w0 = [] \<and> recorded w0 = []"
    then have i: "rate_inv cfg w0" by (simp add: fresh_rate_inv)
    then have "rate_inv cfg (snd (main cfg e w0))" using main_rate [OF nn] by blast
    then have "paced (MAX_PER_MINUTE cfg) (recorded (snd (main cfg e w0)))"
      by (simp add: rate_inv_def log_ok_def)
    then show "rate_inv cfg w0 \<and> paced (MAX_PER_MINUTE cfg) (recorded (snd (main cfg e w0)))"
      using i by simp
  qed
  have b: "rate_inv cfg w \<longrightarrow>
            rate_inv cfg (snd (wait_for_rate_slot cfg e w))
            \<and> (fst (wait_for_rate_slot cfg e w) = None \<longrightarrow>
                 slot_free cfg (snd (wait_for_rate_slot cfg e w)))
            \<and> rate_inv cfg (snd (do_request cfg e rq car w))
            \<and> rate_inv cfg (snd (main cfg e w))
            \<and> paced (MAX_PER_MINUTE cfg) (recorded w)"
  proof
    assume i: "rate_inv cfg w"
    have "paced (MAX_PER_MINUTE cfg) (recorded w)"
      using i by (simp add: rate_inv_def log_ok_def)
    then show "rate_inv cfg (snd (wait_for_rate_slot cfg e w))
            \<and> (fst (wait_for_rate_slot cfg e w) = None \<longrightarrow>
                 slot_free cfg (snd (wait_for_rate_slot cfg e w)))
            \<and> rate_inv cfg (snd (do_request cfg e rq car w))
            \<and> rate_inv cfg (snd (main cfg e w))
            \<and> paced (MAX_PER_MINUTE cfg) (recorded w)"
      using wait_for_rate_slot_rate [OF nn i] do_request_rate [OF nn i] main_rate [OF nn i]
      by simp
  qed
  have c: "slot_free cfg w \<longrightarrow>
            int (window_count w) < MAX_PER_MINUTE cfg
            \<and> filter (in_window (clock w)) (stamps w) = filter (in_window (clock w)) (recorded w)
            \<and> slot_free cfg (snd (requests_get e rq w))
            \<and> rate_inv cfg (record_request_timestamp e (snd (requests_get e rq w)))
            \<and> int (window_count (record_request_timestamp e (snd (requests_get e rq w))))
                 \<le> MAX_PER_MINUTE cfg"
  proof
    assume s: "slot_free cfg w"
    obtain out w2 where rg: "requests_get e rq w = (out, w2)"
      by (cases "requests_get e rq w")
    have s2: "slot_free cfg w2" using requests_get_rate(2) [OF nn rg s] .
    have i3: "rate_inv cfg (record_request_timestamp e w2)"
      using record_request_timestamp_rate [OF nn s2] .
    have lt: "int (window_count w) < MAX_PER_MINUTE cfg" using s by (simp add: slot_free_def)
    have "int (window_count (record_request_timestamp e w2)) \<le> max 0 (MAX_PER_MINUTE cfg)"
      using i3 by (simp add: rate_inv_def)
    then have le: "int (window_count (record_request_timestamp e w2)) \<le> MAX_PER_MINUTE cfg"
      using lt by linarith
    have ag: "filter (in_window (clock w)) (stamps w) = filter (in_window (clock w)) (recorded w)"
      using s by (simp add: slot_free_def log_ok_def)
    show "int (window_count w) < MAX_PER_MINUTE cfg
            \<and> filter (in_window (clock w)) (stamps w) = filter (in_window (clock w)) (recorded w)
            \<and> slot_free cfg (snd (requests_get e rq w))
            \<and> rate_inv cfg (record_request_timestamp e (snd (requests_get e rq w)))
            \<and> int (window_count (record_request_timestamp e (snd (requests_get e rq w))))
                 \<le> MAX_PER_MINUTE cfg"
      using lt ag s2 i3 le by (simp add: rg)
  qed
  show ?thesis
    apply (intro conjI)
    using a apply assumption
    using b apply assumption
    using c apply assumption
    done
qed

lemma first_done_eq:
  "first_done = \<lparr>clock = 3, step = 3, stamps = [3], files = (\<lambda>p. None),
     sent = [(HistoricalReq ''2023-03-02'', Responds \<lparr>status_code = 200, body = ok_body\<rparr>)],
     slept = [], recorded = [3]\<rparr>"
  by (simp add: first_done_def do_request_def do_request_loop.simps slow_cfg_def ex_cfg_def
      tick_env_def ok_env_def ex_env_def ex_world_def wait_for_rate_slot_def time_time_def
      tick_def requests_get_def record_request_timestamp_def Let_def in_window_def)

lemma second_wait:
  "wait_for_rate_slot slow_cfg tick_env first_done
     = (None, \<lparr>clock = 1301 / 20, step = 6, stamps = [], files = (\<lambda>p. None),
         sent = [(HistoricalReq ''2023-03-02'', Responds \<lparr>status_code = 200, body = ok_body\<rparr>)],
         slept = [(RateLimit, 1181 / 20)], recorded = [3]\<rparr>)"
  unfolding first_done_eq
  by (simp add: slow_cfg_def ex_cfg_def
      tick_env_def ok_env_def ex_env_def wait_for_rate_slot_def time_time_def time_sleep_def
      tick_def Let_def in_window_def)

text \<open>
  One request a minute, every interaction taking a second: the first request is recorded
  at second 3; the admission of the second sleeps 59.05 seconds and returns at 65.05 with
  no recorded timestamp in the window.
\<close>

theorem rate_limit_respected_witness:
  "recorded first_done = [3]
   \<and> fst (wait_for_rate_slot slow_cfg tick_env first_done) = None
   \<and> slept (snd (wait_for_rate_slot slow_cfg tick_env first_done)) = [(RateLimit, 1181 / 20)]
   \<and> int (window_count (snd (wait_for_rate_slot slow_cfg tick_env first_done)))
        < MAX_PER_MINUTE slow_cfg
   \<and> paced (MAX_PER_MINUTE slow_cfg) (recorded first_done)
   \<and> paced (MAX_PER_MINUTE ex_cfg) (recorded (snd (main ex_cfg one_day_env ex_world)))"
proof -
  have nn: "\<forall>k. 0 \<le> delay tick_env k"
    by (simp add: tick_env_def)
  have nn1: "\<forall>k. 0 \<le> delay one_day_env k"
    by (simp add: one_day_env_def ok_env_def ex_env_def)
  have fresh: "stamps ex_world = [] \<and> recorded ex_world = []" by (simp add: ex_world_def)
  note t0 = rate_limit_respected [OF nn, where cfg = slow_cfg and ?w0.0 = ex_world
      and w = ex_world and rq = "HistoricalReq ''2023-03-02''" and car = True]
  have i0: "rate_inv slow_cfg ex_world"
    using t0 [THEN conjunct1, rule_format, OF fresh] by simp
  have i1: "rate_inv slow_cfg first_done"
    using t0 [THEN conjunct2, THEN conjunct1, rule_format, OF i0]
    unfolding first_done_def by simp
  note t1 = rate_limit_respected [OF nn, where cfg = slow_cfg and ?w0.0 = ex_world
      and w = first_done and rq = "HistoricalReq ''2023-03-02''" and car = True,
      THEN conjunct2, THEN conjunct1, rule_format, OF i1]
  have none: "fst (wait_for_rate_slot slow_cfg tick_env first_done) = None"
    by (simp add: second_wait)
  have sf: "slot_free slow_cfg (snd (wait_for_rate_slot slow_cfg tick_env first_done))"
    using t1 [THEN conjunct2, THEN conjunct1, rule_format, OF none] .
  have lt: "int (window_count (snd (wait_for_rate_slot slow_cfg tick_env first_done)))
        < MAX_PER_MINUTE slow_cfg"
    using rate_limit_respected [OF nn, where cfg = slow_cfg and ?w0.0 = ex_world
      and w = "snd (wait_for_rate_slot slow_cfg tick_env first_done)"
      and rq = "HistoricalReq ''2023-03-02''" and car = True,
      THEN conjunct2, THEN conjunct2, rule_format, OF sf]
    by simp
  have pc: "paced (MAX_PER_MINUTE slow_cfg) (recorded first_done)"
    using t1 by simp
  have pm: "paced (MAX_PER_MINUTE ex_cfg) (recorded (snd (main ex_cfg one_day_env ex_world)))"
    using rate_limit_respected [OF nn1, where cfg = ex_cfg and ?w0.0 = ex_world
      and w = ex_world and rq = StatusReq and car = True,
      THEN conjunct1, rule_format, OF fresh]
    by simp
  have rc: "recorded first_done = [3]" by (simp add: first_done_eq)
  have sl: "slept (snd (wait_for_rate_slot slow_cfg tick_env first_done))
      = [(RateLimit, 1181 / 20)]"
    by (simp add: second_wait)
  show ?thesis
    apply (intro conjI)
    using rc apply assumption
    using none apply assumption
    using sl apply assumption
    using lt apply assumption
    using pc apply assumption
    using pm apply assumption
    done
qed

lemma back_first_eq:
  "back_first = \<lparr>clock = 0, step = 3, stamps = [0], files = (\<lambda>p. None),
     sent = [(HistoricalReq ''2023-03-02'', Responds \<lparr>status_code = 200, body = ok_body\<rparr>)],
     slept = [], recorded = [0]\<rparr>"
  by (simp add: back_first_def do_request_def do_request_loop.simps slow_cfg_def ex_cfg_def
      back_env_def ok_env_def ex_env_def ex_world_def wait_for_rate_slot_def time_time_def
      tick_def requests_get_def record_request_timestamp_def Let_def in_window_def)

lemma back_wait:
  "wait_for_rate_slot slow_cfg back_env back_first
     = (None, \<lparr>clock = - (799 / 20), step = 6, stamps = [0], files = (\<lambda>p. None),
         sent = [(HistoricalReq ''2023-03-02'', Responds \<lparr>status_code = 200, body = ok_body\<rparr>)],
         slept = [(RateLimit, 1201 / 20)], recorded = [0]\<rparr>)"
  unfolding back_first_eq
  by (simp add: slow_cfg_def ex_cfg_def
      back_env_def ok_env_def ex_env_def wait_for_rate_slot_def time_time_def time_sleep_def
      tick_def Let_def in_window_def)

lemma back_second:
  "recorded (snd (do_request slow_cfg back_env (HistoricalReq ''2023-03-03'') True back_first))
     = [0, - (799 / 20)]"
  unfolding back_first_eq
  by (simp add: do_request_def do_request_loop.simps slow_cfg_def ex_cfg_def
      back_env_def ok_env_def ex_env_def wait_for_rate_slot_def time_time_def time_sleep_def
      tick_def requests_get_def record_request_timestamp_def Let_def in_window_def)

text \<open>
  The claim as stated fails when the clock goes back. One request a minute; the first
  request is recorded at second 0; the admission of the second sleeps 60.05 seconds,
  during which the clock is set back by 100 seconds, and returns at -39.95 with the
  timestamp of the first request still in the window; the second request is then recorded
  39.95 seconds before the first, the two in one window.
\<close>

theorem rate_limit_counterexample:
  "MAX_PER_MINUTE slow_cfg = 1
   \<and> stamps ex_world = [] \<and> recorded ex_world = []
   \<and> delay back_env 5 = - 100
   \<and> fst (wait_for_rate_slot slow_cfg back_env back_first) = None
   \<and> window_count (snd (wait_for_rate_slot slow_cfg back_env back_first)) = 1
   \<and> recorded (snd (do_request slow_cfg back_env (HistoricalReq ''2023-03-03'') True back_first))
       = [0, - (799 / 20)]
   \<and> \<not> paced 1 [0, - (799 / 20)]"
proof -
  have "\<not> paced 1 [0, - (799 / 20)]"
    unfolding paced_def
    by (simp add: in_window_def) (rule exI [of _ 1], simp add: in_window_def)
  moreover have "MAX_PER_MINUTE slow_cfg = 1" by (simp add: slow_cfg_def)
  moreover have "stamps ex_world = [] \<and> recorded ex_world = []" by (simp add: ex_world_def)
  moreover have "delay back_env 5 = - 100" by (simp add: back_env_def)
  moreover have "fst (wait_for_rate_slot slow_cfg back_env back_first) = None"
    by (simp add: back_wait)
  moreover have "window_count (snd (wait_for_rate_slot slow_cfg back_env back_first)) = 1"
    by (simp add: back_wait window_count_def in_window_def)
  ultimately show ?thesis using back_second by simp
qed

end
